theory Spec2Isabelle
  imports Main "HOL-Library.Stream"
begin

section \<open>The source-faker connector: data model\<close>

text \<open>
  The development embeds \<^verbatim>\<open>source_faker/source.py\<close>. Python values that the
  connector stores in records are \<open>pyval\<close>; a Python \<^verbatim>\<open>dict\<close> is an association
  list in insertion order. A naive \<^verbatim>\<open>datetime\<close> is the number of microseconds since a
  fixed epoch, so that \<^verbatim>\<open>(b - a).days\<close> is floor division by the microseconds of a day.
  \<open>PyIso t\<close> stands for the string \<^verbatim>\<open>t.isoformat()\<close>, kept symbolic.
\<close>

type_synonym datetime = int

definition us_per_day :: int where
  "us_per_day = 86400000000"

datatype pyval = PyNone | PyInt int | PyStr string | PyTime datetime | PyIso datetime

type_synonym dict = "(string \<times> pyval) list"

text \<open>
  The sync state maps a stream name to a checkpoint object, and a checkpoint object maps
  a field name to an integer or \<^verbatim>\<open>None\<close> (\<^verbatim>\<open>seed\<close> may be \<^verbatim>\<open>None\<close>).
\<close>

type_synonym checkpoint = "(string \<times> int option) list"
type_synonym sync_state = "(string \<times> checkpoint) list"

text \<open>
  Every exception of the source is a value. \<open>PurchasesWithoutUsers\<close> is the
  \<^verbatim>\<open>ValueError\<close> of line 126, \<open>UnknownStream\<close> the one of line 170 and \<open>EmptyRange\<close>
  the one \<^verbatim>\<open>random.randrange\<close> raises on an empty range.
\<close>

datatype error =
    PurchasesWithoutUsers
  | UnknownStream string
  | EmptyRange
  | KeyError string
  | TypeError
  | AttributeError

fun is_ValueError :: "error \<Rightarrow> bool" where
  "is_ValueError PurchasesWithoutUsers = True"
| "is_ValueError (UnknownStream n) = True"
| "is_ValueError EmptyRange = True"
| "is_ValueError e = False"

datatype message = Record string dict | State sync_state

record configured_stream =
  stream_name :: string
  sync_mode :: string

record config =
  cfg_count :: "int option"
  cfg_seed :: "int option"
  cfg_records_per_sync :: "int option"
  cfg_records_per_slice :: "int option"

subsection \<open>Dictionaries\<close>

definition dict_get :: "(string \<times> 'v) list \<Rightarrow> string \<Rightarrow> error + 'v" where
  "dict_get d k = (case map_of d k of None \<Rightarrow> Inl (KeyError k) | Some v \<Rightarrow> Inr v)"

fun dict_set :: "(string \<times> 'v) list \<Rightarrow> string \<Rightarrow> 'v \<Rightarrow> (string \<times> 'v) list" where
  "dict_set [] k v = [(k, v)]"
| "dict_set ((k', v') # d) k v = (if k' = k then (k, v) # d else (k', v') # dict_set d k v)"

definition dict_del :: "(string \<times> 'v) list \<Rightarrow> string \<Rightarrow> error + (string \<times> 'v) list" where
  "dict_del d k =
     (if k \<in> set (map fst d) then Inr (filter (\<lambda>kv. fst kv \<noteq> k) d) else Inl (KeyError k))"

fun dict_update :: "(string \<times> 'v) list \<Rightarrow> (string \<times> 'v) list \<Rightarrow> (string \<times> 'v) list" where
  "dict_update d [] = d"
| "dict_update d ((k, v) # kvs) = dict_update (dict_set d k v) kvs"

subsection \<open>The two random sources\<close>

text \<open>
  \<^verbatim>\<open>random\<close> is a stream of raw draws; \<^verbatim>\<open>randrange(start, stop)\<close> consumes one draw
  and maps it into \<open>[start, stop)\<close>, or raises on an empty range; \<^verbatim>\<open>randrange(n)\<close> is
  \<^verbatim>\<open>randrange(0, n)\<close>. The \<^verbatim>\<open>Faker\<close> instance is the stream of profiles and the
  stream of datetimes it will hand out.
\<close>

definition randrange :: "int \<Rightarrow> int \<Rightarrow> nat stream \<Rightarrow> error + (int \<times> nat stream)" where
  "randrange start stop rng =
     (if stop - start \<le> 0 then Inl EmptyRange
      else Inr (start + int (shd rng) mod (stop - start), stl rng))"

record faker =
  profiles :: "dict stream"
  date_times :: "datetime stream"

definition fake_profile :: "faker \<Rightarrow> dict \<times> faker" where
  "fake_profile fk = (shd (profiles fk), fk\<lparr>profiles := stl (profiles fk)\<rparr>)"

definition fake_date_time :: "faker \<Rightarrow> datetime \<times> faker" where
  "fake_date_time fk = (shd (date_times fk), fk\<lparr>date_times := stl (date_times fk)\<rparr>)"

subsection \<open>The process: clock and default argument\<close>

text \<open>
  \<open>clock\<close> is what \<^verbatim>\<open>datetime.datetime.now()\<close> returns at this moment;
  \<open>end_date_default\<close> is the default value stored in the function object of
  \<^verbatim>\<open>random_date_in_range\<close>. Executing the \<^verbatim>\<open>def\<close> statement of line 255
  evaluates the default expression once.
\<close>

record process =
  clock :: datetime
  end_date_default :: datetime

definition import_module :: "process \<Rightarrow> process" where
  "import_module p = p\<lparr>end_date_default := clock p\<rparr>"

definition advance :: "int \<Rightarrow> process \<Rightarrow> process" where
  "advance d p = p\<lparr>clock := clock p + d\<rparr>"

section \<open>Record generators\<close>

definition days_between :: "datetime \<Rightarrow> datetime \<Rightarrow> int" where
  "days_between start_date end_date = (end_date - start_date) div us_per_day"

definition random_date_in_range ::
  "process \<Rightarrow> datetime \<Rightarrow> datetime option \<Rightarrow> nat stream \<Rightarrow> error + (datetime \<times> nat stream)" where
  "random_date_in_range p start_date end_arg rng =
     (let end_date = (case end_arg of None \<Rightarrow> end_date_default p | Some e \<Rightarrow> e);
          days_between_dates = days_between start_date end_date
      in case randrange 0 days_between_dates rng of
           Inl e \<Rightarrow> Inl e
         | Inr (random_number_of_days, rng') \<Rightarrow>
             Inr (start_date + random_number_of_days * us_per_day, rng'))"

definition generate_user :: "faker \<Rightarrow> int \<Rightarrow> error + (dict \<times> faker)" where
  "generate_user fk user_id =
     (case fake_profile fk of (profile, fk1) \<Rightarrow>
     (case dict_del profile ''birthdate'' of
        Inl e \<Rightarrow> Inl e
      | Inr profile' \<Rightarrow>
     (case fake_date_time fk1 of (time_a, fk2) \<Rightarrow>
     (case fake_date_time fk2 of (time_b, fk3) \<Rightarrow>
        Inr (dict_update profile'
               [(''id'', PyInt (user_id + 1)),
                (''created_at'', PyTime (if time_a \<le> time_b then time_a else time_b)),
                (''updated_at'', PyTime (if time_a > time_b then time_a else time_b))],
             fk3)))))"

text \<open>
  One pass through the body of the \<^verbatim>\<open>while\<close> loop of \<^verbatim>\<open>generate_purchases\<close>,
  lines 221 to 238: the purchase built and the random source after it.
\<close>

definition py_time :: "datetime option \<Rightarrow> pyval" where
  "py_time t = (case t of None \<Rightarrow> PyNone | Some x \<Rightarrow> PyTime x)"

definition sample_after ::
  "process \<Rightarrow> datetime option \<Rightarrow> int \<Rightarrow> nat stream \<Rightarrow> error + (datetime option \<times> nat stream)" where
  "sample_after p prev percent rng =
     (case prev of
        None \<Rightarrow> Inr (None, rng)
      | Some t \<Rightarrow>
         (case randrange 1 100 rng of
            Inl e \<Rightarrow> Inl e
          | Inr (r, rng1) \<Rightarrow>
              if r \<le> percent then
                (case random_date_in_range p t None rng1 of
                   Inl e \<Rightarrow> Inl e
                 | Inr (d, rng2) \<Rightarrow> Inr (Some d, rng2))
              else Inr (None, rng1)))"

definition make_purchase ::
  "process \<Rightarrow> dict \<Rightarrow> int option \<Rightarrow> int \<Rightarrow> int \<Rightarrow> nat stream \<Rightarrow> error + (dict \<times> nat stream)" where
  "make_purchase p user purchases_count total_products i rng =
     (case purchases_count of
        None \<Rightarrow> Inl TypeError
      | Some pc \<Rightarrow>
     (case randrange 1 total_products rng of
        Inl e \<Rightarrow> Inl e
      | Inr (product_id, rng1) \<Rightarrow>
     (case dict_get user ''created_at'' of
        Inl e \<Rightarrow> Inl e
      | Inr created \<Rightarrow>
     (case created of
        PyTime created_at \<Rightarrow>
         (case random_date_in_range p created_at None rng1 of
            Inl e \<Rightarrow> Inl e
          | Inr (added_to_cart_at, rng2) \<Rightarrow>
         (case sample_after p (Some added_to_cart_at) 70 rng2 of
            Inl e \<Rightarrow> Inl e
          | Inr (purchased_at, rng3) \<Rightarrow>
         (case sample_after p purchased_at 15 rng3 of
            Inl e \<Rightarrow> Inl e
          | Inr (returned_at, rng4) \<Rightarrow>
         (case dict_get user ''id'' of
            Inl e \<Rightarrow> Inl e
          | Inr uid \<Rightarrow>
              Inr ([(''id'', PyInt (pc + i + 1)),
                    (''product_id'', PyInt product_id),
                    (''user_id'', uid),
                    (''added_to_cart_at'', PyTime added_to_cart_at),
                    (''purchased_at'', py_time purchased_at),
                    (''returned_at'', py_time returned_at)],
                   rng4)))))
      | _ \<Rightarrow> Inl TypeError))))"

function purchases_loop ::
  "process \<Rightarrow> dict \<Rightarrow> int option \<Rightarrow> int \<Rightarrow> int \<Rightarrow> int \<Rightarrow> dict list \<Rightarrow> nat stream
     \<Rightarrow> error + (dict list \<times> nat stream)" where
  "purchases_loop p user purchases_count total_products purchase_percent_remaining i purchases rng =
     (if purchase_percent_remaining > 0 then
        (case make_purchase p user purchases_count total_products i rng of
           Inl e \<Rightarrow> Inl e
         | Inr (purchase, rng1) \<Rightarrow>
            (case randrange 1 100 rng1 of
               Inl e \<Rightarrow> Inl e
             | Inr (r, rng2) \<Rightarrow>
                 purchases_loop p user purchases_count total_products
                   (purchase_percent_remaining - r) (i + 1) (purchases @ [purchase]) rng2))
      else Inr (purchases, rng))"
  by pat_completeness auto
termination
  by (relation "measure (\<lambda>(p, user, pc, tp, remaining, i, purchases, rng). nat remaining)")
     (auto simp: randrange_def split: if_splits)

definition generate_purchases ::
  "process \<Rightarrow> dict list \<Rightarrow> dict \<Rightarrow> int option \<Rightarrow> nat stream \<Rightarrow> error + (dict list \<times> nat stream)" where
  "generate_purchases p products user purchases_count rng =
     (let total_products = int (length products) in
      case randrange 1 100 rng of
        Inl e \<Rightarrow> Inl e
      | Inr (r, rng1) \<Rightarrow> purchases_loop p user purchases_count total_products (80 - r) 0 [] rng1)"

section \<open>The sync driver\<close>

text \<open>
  \<^verbatim>\<open>generate_record\<close> copies the data and replaces every datetime by its ISO string.
  The envelope's \<^verbatim>\<open>emitted_at\<close> stamp is left out of the message: no part of the
  driver reads it back.
\<close>

definition isoformat_values :: "dict \<Rightarrow> dict" where
  "isoformat_values d = map (\<lambda>(k, v). (k, case v of PyTime t \<Rightarrow> PyIso t | _ \<Rightarrow> v)) d"

definition generate_record :: "configured_stream \<Rightarrow> dict \<Rightarrow> message" where
  "generate_record stream data = Record (stream_name stream) (isoformat_values data)"

text \<open>
  \<^verbatim>\<open>generate_state\<close> stores the checkpoint in the one combined state and emits the
  whole of it. A message is what its consumer reads when it is yielded.
\<close>

definition generate_state ::
  "sync_state \<Rightarrow> configured_stream \<Rightarrow> checkpoint \<Rightarrow> message \<times> sync_state" where
  "generate_state st stream data =
     (let st' = dict_set st (stream_name stream) data in (State st', st'))"

definition get_stream_cursor :: "sync_state \<Rightarrow> string \<Rightarrow> error + int" where
  "get_stream_cursor st stream =
     (case map_of st stream of
        None \<Rightarrow> Inr 0
      | Some cp \<Rightarrow>
         (case dict_get cp ''cursor'' of
            Inl e \<Rightarrow> Inl e
          | Inr None \<Rightarrow> Inr 0
          | Inr (Some c) \<Rightarrow> Inr c))"

text \<open>
  What \<^verbatim>\<open>read\<close> fixes before its main loop (lines 105 to 126), and what changes
  while the generator runs.
\<close>

record ctx =
  c_count :: int
  c_seed :: "int option"
  c_records_per_sync :: int
  c_records_per_slice :: int
  c_to_generate_purchases :: bool
  c_purchases_stream :: "configured_stream option"
  c_process :: process
  c_products :: "dict list"

record run =
  run_state :: sync_state
  run_purchases_count :: "int option"
  run_fake :: faker
  run_rng :: "nat stream"

record counters =
  total_records :: int
  records_in_sync :: int
  records_in_page :: int

text \<open>Lines 144 to 146: each purchase is yielded, then counted.\<close>

fun emit_purchases ::
  "configured_stream \<Rightarrow> dict list \<Rightarrow> int option \<Rightarrow> message list \<times> (error + int option)" where
  "emit_purchases ps [] pc = ([], Inr pc)"
| "emit_purchases ps (p # rest) pc =
     (case pc of
        None \<Rightarrow> ([generate_record ps p], Inl TypeError)
      | Some n \<Rightarrow>
         (case emit_purchases ps rest (Some (n + 1)) of
            (ms, res) \<Rightarrow> (generate_record ps p # ms, res)))"

text \<open>Lines 142 to 146.\<close>

definition user_purchases ::
  "ctx \<Rightarrow> dict \<Rightarrow> run \<Rightarrow> message list \<times> (error + run)" where
  "user_purchases cx user r =
     (if c_to_generate_purchases cx then
        (case generate_purchases (c_process cx) (c_products cx) user
                (run_purchases_count r) (run_rng r) of
           Inl e \<Rightarrow> ([], Inl e)
         | Inr (purchases, rng') \<Rightarrow>
            (case c_purchases_stream cx of
               None \<Rightarrow> (if purchases = [] then ([], Inr (r\<lparr>run_rng := rng'\<rparr>))
                         else ([], Inl AttributeError))
             | Some ps \<Rightarrow>
                (case emit_purchases ps purchases (run_purchases_count r) of
                   (ms, Inl e) \<Rightarrow> (ms, Inl e)
                 | (ms, Inr pc') \<Rightarrow>
                     (ms, Inr (r\<lparr>run_purchases_count := pc', run_rng := rng'\<rparr>)))))
      else ([], Inr r))"

text \<open>
  The body of the loop over user indices, lines 136 to 150, up to the test for
  \<^verbatim>\<open>break\<close>.
\<close>

definition user_iteration ::
  "ctx \<Rightarrow> configured_stream \<Rightarrow> int \<Rightarrow> counters \<Rightarrow> run
     \<Rightarrow> message list \<times> (error + counters \<times> run)" where
  "user_iteration cx stream i cs r =
     (case generate_user (run_fake r) i of
        Inl e \<Rightarrow> ([], Inl e)
      | Inr (user, fk') \<Rightarrow>
         (let m = generate_record stream user;
              cs1 = \<lparr>total_records = total_records cs + 1,
                     records_in_sync = records_in_sync cs + 1,
                     records_in_page = records_in_page cs + 1\<rparr>
          in case user_purchases cx user (r\<lparr>run_fake := fk'\<rparr>) of
               (ms, Inl e) \<Rightarrow> (m # ms, Inl e)
             | (ms, Inr r1) \<Rightarrow>
                 if records_in_page cs1 = c_records_per_slice cx then
                   (case generate_state (run_state r1) stream
                           [(''cursor'', Some (total_records cs1)), (''seed'', c_seed cx)] of
                      (sm, st') \<Rightarrow>
                        (m # ms @ [sm],
                         Inr (cs1\<lparr>records_in_page := 0\<rparr>, r1\<lparr>run_state := st'\<rparr>)))
                 else (m # ms, Inr (cs1, r1))))"

function users_loop ::
  "ctx \<Rightarrow> configured_stream \<Rightarrow> int \<Rightarrow> counters \<Rightarrow> run
     \<Rightarrow> message list \<times> (error + counters \<times> run)" where
  "users_loop cx stream i cs r =
     (if i < c_count cx then
        (case user_iteration cx stream i cs r of
           (ms, Inl e) \<Rightarrow> (ms, Inl e)
         | (ms, Inr (cs', r')) \<Rightarrow>
             if records_in_sync cs' = c_records_per_sync cx then (ms, Inr (cs', r'))
             else (case users_loop cx stream (i + 1) cs' r' of
                     (ms', res) \<Rightarrow> (ms @ ms', res)))
      else ([], Inr (cs, r)))"
  by pat_completeness auto
termination
  by (relation "measure (\<lambda>(cx, stream, i, cs, r). nat (c_count cx - i))") auto

text \<open>The branch for the Users stream, lines 130 to 157.\<close>

definition emit_users :: "ctx \<Rightarrow> configured_stream \<Rightarrow> run \<Rightarrow> message list \<times> (error + run)" where
  "emit_users cx stream r =
     (case get_stream_cursor (run_state r) (stream_name stream) of
        Inl e \<Rightarrow> ([], Inl e)
      | Inr cursor \<Rightarrow>
         (case users_loop cx stream cursor
                 \<lparr>total_records = cursor, records_in_sync = 0, records_in_page = 0\<rparr> r of
            (ms, Inl e) \<Rightarrow> (ms, Inl e)
          | (ms, Inr (cs, r1)) \<Rightarrow>
             (case generate_state (run_state r1) stream
                     [(''cursor'', Some (total_records cs)), (''seed'', c_seed cx)] of
                (m1, st1) \<Rightarrow>
                  (case c_purchases_stream cx of
                     None \<Rightarrow> (ms @ [m1], Inr (r1\<lparr>run_state := st1\<rparr>))
                   | Some ps \<Rightarrow>
                      (case generate_state st1 ps
                              [(''purchases_count'', run_purchases_count r1)] of
                         (m2, st2) \<Rightarrow> (ms @ [m1, m2], Inr (r1\<lparr>run_state := st2\<rparr>)))))))"

text \<open>The branch for the Products stream, lines 160 to 163.\<close>

definition emit_products :: "ctx \<Rightarrow> configured_stream \<Rightarrow> run \<Rightarrow> message list \<times> (error + run)" where
  "emit_products cx stream r =
     (case generate_state (run_state r) stream
             [(''product_count'', Some (int (length (c_products cx))))] of
        (m, st') \<Rightarrow>
          (map (generate_record stream) (c_products cx) @ [m], Inr (r\<lparr>run_state := st'\<rparr>)))"

definition emit_stream :: "ctx \<Rightarrow> configured_stream \<Rightarrow> run \<Rightarrow> message list \<times> (error + run)" where
  "emit_stream cx stream r =
     (if stream_name stream = ''Users'' then emit_users cx stream r
      else if stream_name stream = ''Products'' then emit_products cx stream r
      else if stream_name stream = ''Purchases'' then ([], Inr r)
      else ([], Inl (UnknownStream (stream_name stream))))"

text \<open>The loop of line 128 over the configured streams, in catalog order.\<close>

fun emit_streams ::
  "ctx \<Rightarrow> configured_stream list \<Rightarrow> run \<Rightarrow> message list \<times> (error + run)" where
  "emit_streams cx [] r = ([], Inr r)"
| "emit_streams cx (stream # rest) r =
     (case emit_stream cx stream r of
        (ms, Inl e) \<Rightarrow> (ms, Inl e)
      | (ms, Inr r') \<Rightarrow>
         (case emit_streams cx rest r' of (ms', res) \<Rightarrow> (ms @ ms', res)))"

text \<open>Line 116.\<close>

definition initial_purchases_count :: "sync_state \<Rightarrow> error + int option" where
  "initial_purchases_count st =
     (case map_of st ''Purchases'' of
        None \<Rightarrow> Inr (Some 0)
      | Some cp \<Rightarrow> dict_get cp ''purchases_count'')"

text \<open>Lines 120 to 123: the last configured stream named Purchases, if any.\<close>

definition find_purchases_stream :: "configured_stream list \<Rightarrow> configured_stream option" where
  "find_purchases_stream catalog =
     (case filter (\<lambda>s. stream_name s = ''Purchases'') catalog of
        [] \<Rightarrow> None
      | x # xs \<Rightarrow> Some (last (x # xs)))"

definition config_or :: "int option \<Rightarrow> int \<Rightarrow> int" where
  "config_or v d = (case v of None \<Rightarrow> d | Some x \<Rightarrow> x)"

text \<open>
  \<^verbatim>\<open>read\<close>: the messages the generator yields, then the exception that ended it
  or the state object as its last checkpoint left it. \<open>p\<close> is the process the module was
  imported in, \<open>products\<close> the content of \<^verbatim>\<open>products.json\<close>, \<open>fk\<close> the seeded
  \<^verbatim>\<open>Faker\<close> and \<open>rng\<close> the module-level \<^verbatim>\<open>random\<close>.
\<close>

definition read ::
  "process \<Rightarrow> dict list \<Rightarrow> faker \<Rightarrow> nat stream \<Rightarrow> config \<Rightarrow> configured_stream list \<Rightarrow> sync_state
     \<Rightarrow> message list \<times> (error + sync_state)" where
  "read p products fk rng cfg catalog st =
     (case initial_purchases_count st of
        Inl e \<Rightarrow> ([], Inl e)
      | Inr purchases_count \<Rightarrow>
         (let to_generate_users = (''Users'' \<in> set (map stream_name catalog));
              purchases_stream = find_purchases_stream catalog;
              to_generate_purchases = (''Purchases'' \<in> set (map stream_name catalog))
          in if to_generate_purchases \<and> \<not> to_generate_users then ([], Inl PurchasesWithoutUsers)
             else
               (case emit_streams
                       \<lparr>c_count = config_or (cfg_count cfg) 0,
                        c_seed = cfg_seed cfg,
                        c_records_per_sync = config_or (cfg_records_per_sync cfg) 500,
                        c_records_per_slice = config_or (cfg_records_per_slice cfg) 100,
                        c_to_generate_purchases = to_generate_purchases,
                        c_purchases_stream = purchases_stream,
                        c_process = p,
                        c_products = products\<rparr>
                       catalog
                       \<lparr>run_state = st, run_purchases_count = purchases_count,
                        run_fake = fk, run_rng = rng\<rparr> of
                  (ms, Inl e) \<Rightarrow> (ms, Inl e)
                | (ms, Inr r) \<Rightarrow> (ms, Inr (run_state r)))))"

section \<open>Notions used in the statements\<close>

text \<open>
  The claim's account of the loop of \<^verbatim>\<open>generate_purchases\<close>, checked against a list
  of purchases: with none left the budget is not positive and the random source is
  untouched; otherwise the budget is positive, the body of the loop builds the first
  purchase at index \<open>i\<close>, the next \<^verbatim>\<open>randrange(1, 100)\<close> lies between 1 and 99 and is
  taken off the budget, and the rest of the purchases follow from there.
\<close>

fun budget_trace ::
  "process \<Rightarrow> dict \<Rightarrow> int option \<Rightarrow> int \<Rightarrow> int \<Rightarrow> int \<Rightarrow> nat stream \<Rightarrow> dict list \<Rightarrow> nat stream
     \<Rightarrow> bool" where
  "budget_trace p user pc tp budget i rng [] rng' = (budget \<le> 0 \<and> rng' = rng)"
| "budget_trace p user pc tp budget i rng (purchase # rest) rng' =
     (0 < budget \<and>
      (case make_purchase p user pc tp i rng of
         Inl e \<Rightarrow> False
       | Inr (made, rng1) \<Rightarrow>
           made = purchase \<and>
           (case randrange 1 100 rng1 of
              Inl e \<Rightarrow> False
            | Inr (r, rng2) \<Rightarrow>
                1 \<le> r \<and> r \<le> 99 \<and>
                budget_trace p user pc tp (budget - r) (i + 1) rng2 rest rng')))"


text \<open>
  What the Products branch yields in one pass: every product record, then the state
  message; the checkpoint it stores; and the number of streams named Products.
\<close>

definition products_block :: "dict list \<Rightarrow> sync_state \<Rightarrow> message list" where
  "products_block products st =
     map (\<lambda>d. Record ''Products'' (isoformat_values d)) products @ [State st]"

definition products_checkpoint :: "dict list \<Rightarrow> checkpoint" where
  "products_checkpoint products = [(''product_count'', Some (int (length products)))]"

definition products_streams :: "configured_stream list \<Rightarrow> nat" where
  "products_streams catalog = length (filter (\<lambda>s. stream_name s = ''Products'') catalog)"

text \<open>
  The combined state as the last state message of a list left it, or the given state
  when there is none.
\<close>

fun last_state :: "sync_state \<Rightarrow> message list \<Rightarrow> sync_state" where
  "last_state st [] = st"
| "last_state st (Record n d # ms) = last_state st ms"
| "last_state st (State s # ms) = last_state s ms"

text \<open>
  The data of the records of one stream, in the order they were yielded, and the
  property that their \<open>id\<close> fields are \<open>c + 1\<close>, \<open>c + 2\<close>, and so on with no gap.
\<close>

fun records_of :: "string \<Rightarrow> message list \<Rightarrow> dict list" where
  "records_of nm [] = []"
| "records_of nm (Record n d # ms) = (if n = nm then d # records_of nm ms else records_of nm ms)"
| "records_of nm (State st # ms) = records_of nm ms"

definition ids_from :: "int \<Rightarrow> dict list \<Rightarrow> bool" where
  "ids_from c ds \<longleftrightarrow>
     map (\<lambda>d. map_of d ''id'') ds = map (\<lambda>k. Some (PyInt (c + int k + 1))) [0..<length ds]"

text \<open>
  What \<^verbatim>\<open>read\<close> establishes for its flags before the main loop: purchases are
  generated only for a configured stream, and that stream is named Purchases.
\<close>

definition ctx_ok :: "ctx \<Rightarrow> bool" where
  "ctx_ok cx = (case c_purchases_stream cx of None \<Rightarrow> \<not> c_to_generate_purchases cx
                | Some ps \<Rightarrow> stream_name ps = ''Purchases'')"

definition users_checkpoint :: "int \<Rightarrow> int option \<Rightarrow> checkpoint" where
  "users_checkpoint n seed = [(''cursor'', Some n), (''seed'', seed)]"

definition read_ctx :: "process \<Rightarrow> dict list \<Rightarrow> config \<Rightarrow> configured_stream list \<Rightarrow> ctx" where
  "read_ctx p products cfg catalog =
     \<lparr>c_count = config_or (cfg_count cfg) 0,
      c_seed = cfg_seed cfg,
      c_records_per_sync = config_or (cfg_records_per_sync cfg) 500,
      c_records_per_slice = config_or (cfg_records_per_slice cfg) 100,
      c_to_generate_purchases = (''Purchases'' \<in> set (map stream_name catalog)),
      c_purchases_stream = find_purchases_stream catalog,
      c_process = p,
      c_products = products\<rparr>"

text \<open>
  The checkpoints as their consumer sees them: a record by its stream and \<open>id\<close>,
  Purchases records left out, and a state message by the Users and the Purchases
  checkpoint of the combined state it carries.
\<close>

datatype event = Emitted string "pyval option" | Checkpoint "checkpoint option" "checkpoint option"

fun events :: "message list \<Rightarrow> event list" where
  "events [] = []"
| "events (Record n d # ms) =
     (if n = ''Purchases'' then events ms else Emitted n (map_of d ''id'') # events ms)"
| "events (State st # ms) =
     Checkpoint (map_of st ''Users'') (map_of st ''Purchases'') # events ms"

text \<open>
  The specification's own description of user emission, in its words: the user
  index runs from the cursor, capped at \<open>records_per_sync\<close> emissions; every
  \<open>records_per_slice\<close> user emissions an intermediate Users checkpoint holds the total
  number of users emitted so far, including the resumed offset, and the seed; after the
  loop come a final Users checkpoint and, if Purchases is enabled, a Purchases checkpoint.
\<close>

fun sliced_users ::
  "int \<Rightarrow> int option \<Rightarrow> int \<Rightarrow> checkpoint option \<Rightarrow> nat \<Rightarrow> nat \<Rightarrow> event list" where
  "sliced_users c seed slice pcp k 0 = []"
| "sliced_users c seed slice pcp k (Suc n) =
     Emitted ''Users'' (Some (PyInt (c + int k + 1))) #
     (if int (Suc k) mod slice = 0
      then [Checkpoint (Some (users_checkpoint (c + int (Suc k)) seed)) pcp] else []) @
     sliced_users c seed slice pcp (Suc k) n"

definition users_due :: "int \<Rightarrow> int \<Rightarrow> int \<Rightarrow> nat" where
  "users_due c total_count per_sync =
     nat (if 0 < per_sync \<and> per_sync < total_count - c then per_sync else total_count - c)"

definition expected_events ::
  "int \<Rightarrow> int option \<Rightarrow> int \<Rightarrow> checkpoint option \<Rightarrow> nat \<Rightarrow> int option \<Rightarrow> event list" where
  "expected_events c seed slice pcp n final_purchases =
     sliced_users c seed slice pcp 0 n @
     Checkpoint (Some (users_checkpoint (c + int n) seed)) pcp #
     (case final_purchases of
        None \<Rightarrow> []
      | Some q \<Rightarrow> [Checkpoint (Some (users_checkpoint (c + int n) seed))
                     (Some [(''purchases_count'', Some q)])])"

subsection \<open>Sample inputs\<close>

definition demo_stream :: "string \<Rightarrow> configured_stream" where
  "demo_stream n = \<lparr>stream_name = n, sync_mode = ''incremental''\<rparr>"

definition demo_process :: process where
  "demo_process = \<lparr>clock = 200 * us_per_day, end_date_default = 100 * us_per_day\<rparr>"

definition demo_faker :: faker where
  "demo_faker =
     \<lparr>profiles = sconst [(''name'', PyStr ''Ann''), (''birthdate'', PyStr ''1990-01-01'')],
      date_times = 5 ## 2 ## sconst 0\<rparr>"

definition demo_products :: "dict list" where
  "demo_products = [[(''id'', PyInt 1)], [(''id'', PyInt 2)], [(''id'', PyInt 3)]]"

definition demo_user :: dict where
  "demo_user = [(''name'', PyStr ''Ann''), (''id'', PyInt 1), (''created_at'', PyTime 2),
                (''updated_at'', PyTime 5)]"

definition demo_config :: config where
  "demo_config = \<lparr>cfg_count = Some 5, cfg_seed = Some 42, cfg_records_per_sync = Some 5,
                   cfg_records_per_slice = Some 2\<rparr>"

definition demo_purchases :: "dict list" where
  "demo_purchases =
     [[(''id'', PyInt 8), (''product_id'', PyInt 1), (''user_id'', PyInt 1),
       (''added_to_cart_at'', PyTime 259200000002),
       (''purchased_at'', PyNone), (''returned_at'', PyNone)],
      [(''id'', PyInt 9), (''product_id'', PyInt 2), (''user_id'', PyInt 1),
       (''added_to_cart_at'', PyTime 2),
       (''purchased_at'', PyTime 172800000002), (''returned_at'', PyNone)]]"

definition demo_rng :: "nat stream" where
  "demo_rng = 9 ## 0 ## 3 ## 79 ## 29 ## 1 ## 0 ## 9 ## 2 ## 50 ## 98 ## sconst 0"

definition demo_resumed_state :: sync_state where
  "demo_resumed_state =
     [(''Users'', [(''cursor'', Some 2), (''seed'', None)]),
      (''Purchases'', [(''purchases_count'', Some 7)])]"

definition demo_capped_config :: config where
  "demo_capped_config = \<lparr>cfg_count = Some 4, cfg_seed = None, cfg_records_per_sync = Some 1,
                          cfg_records_per_slice = None\<rparr>"

definition demo_sliced_config :: config where
  "demo_sliced_config = \<lparr>cfg_count = Some 4, cfg_seed = None, cfg_records_per_sync = Some 1,
                          cfg_records_per_slice = Some 1\<rparr>"

definition demo_intermediate_state :: sync_state where
  "demo_intermediate_state =
     [(''Users'', [(''cursor'', Some 3), (''seed'', None)]),
      (''Purchases'', [(''purchases_count'', Some 7)])]"

section \<open>Basic facts\<close>

declare purchases_loop.simps [simp del]
declare users_loop.simps [simp del]

lemmas demo_defs = demo_stream_def demo_process_def demo_faker_def demo_products_def
  demo_user_def demo_config_def demo_rng_def demo_purchases_def demo_resumed_state_def
  demo_capped_config_def demo_sliced_config_def demo_intermediate_state_def

lemmas generator_defs = generate_user_def generate_purchases_def make_purchase_def
  sample_after_def random_date_in_range_def randrange_def days_between_def us_per_day_def
  fake_profile_def fake_date_time_def dict_del_def dict_get_def py_time_def Let_def

lemmas driver_defs = read_def initial_purchases_count_def find_purchases_stream_def
  config_or_def emit_stream_def emit_users_def emit_products_def get_stream_cursor_def
  generate_state_def user_iteration_def user_purchases_def generate_record_def
  isoformat_values_def

lemmas eval_defs = demo_defs generator_defs driver_defs users_loop.simps purchases_loop.simps

lemma map_of_dict_set:
  "map_of (dict_set d k v) k' = (if k' = k then Some v else map_of d k')"
  by (induction d) auto

lemma randrange_Inr:
  "randrange a b rng = Inr (r, rng') \<Longrightarrow> a \<le> r \<and> r < b \<and> rng' = stl rng"
proof -
  assume a: "randrange a b rng = Inr (r, rng')"
  then have w: "0 < b - a" by (auto simp: randrange_def split: if_splits)
  have "int (shd rng) mod (b - a) < b - a" "0 \<le> int (shd rng) mod (b - a)"
    using w by simp_all
  with a w show ?thesis by (auto simp: randrange_def split: if_splits)
qed

lemma sample_after_None [simp]:
  "sample_after p None percent rng = Inr (None, rng)"
  by (simp add: sample_after_def)

lemma py_time_None [simp]: "py_time t = PyNone \<longleftrightarrow> t = None"
  by (simp add: py_time_def split: option.splits)

lemma make_purchase_shape:
  assumes "make_purchase p user purchases_count total_products i rng = Inr (purchase, rng')"
  shows "\<exists>pc product_id uid a pu re.
           purchases_count = Some pc \<and>
           purchase = [(''id'', PyInt (pc + i + 1)), (''product_id'', PyInt product_id),
                       (''user_id'', uid), (''added_to_cart_at'', PyTime a),
                       (''purchased_at'', pu), (''returned_at'', re)] \<and>
           (pu = PyNone \<longrightarrow> re = PyNone)"
  using assms
  by (auto simp: make_purchase_def split: option.splits sum.splits pyval.splits)

lemma purchases_loop_step:
  assumes "purchases_loop p user pc tp remaining i acc rng = Inr (ps, rng')"
      and "remaining > 0"
  obtains purchase rng1 r rng2 where
    "make_purchase p user pc tp i rng = Inr (purchase, rng1)"
    "randrange 1 100 rng1 = Inr (r, rng2)"
    "purchases_loop p user pc tp (remaining - r) (i + 1) (acc @ [purchase]) rng2 = Inr (ps, rng')"
  using assms by (subst (asm) purchases_loop.simps) (auto split: sum.splits)

section \<open>The record generators\<close>

text \<open>
  C5. Every user that \<^verbatim>\<open>generate_user\<close> returns has \<open>id\<close> equal to the index
  plus one, \<open>created_at\<close> the earlier and \<open>updated_at\<close> the later of the two
  datetimes drawn one after the other from the faker, so \<open>created_at \<le> updated_at\<close>.
\<close>

theorem generate_user_timestamps:
  assumes "generate_user fk user_id = Inr (user, fk')"
  shows "map_of user ''id'' = Some (PyInt (user_id + 1)) \<and>
         map_of user ''created_at'' =
           Some (PyTime (min (shd (date_times fk)) (shd (stl (date_times fk))))) \<and>
         map_of user ''updated_at'' =
           Some (PyTime (max (shd (date_times fk)) (shd (stl (date_times fk))))) \<and>
         min (shd (date_times fk)) (shd (stl (date_times fk)))
           \<le> max (shd (date_times fk)) (shd (stl (date_times fk)))"
  using assms
  by (auto simp: generate_user_def fake_profile_def fake_date_time_def map_of_dict_set
        min_def max_def split: sum.splits)

theorem generate_user_timestamps_witness:
  "generate_user demo_faker 0 =
     Inr (demo_user,
          \<lparr>profiles = sconst [(''name'', PyStr ''Ann''), (''birthdate'', PyStr ''1990-01-01'')],
           date_times = sconst 0\<rparr>) \<and>
   map_of demo_user ''id'' = Some (PyInt 1) \<and>
   map_of demo_user ''created_at'' = Some (PyTime 2) \<and>
   map_of demo_user ''updated_at'' = Some (PyTime 5)"
proof -
  have run: "generate_user demo_faker 0 =
     Inr (demo_user,
          \<lparr>profiles = sconst [(''name'', PyStr ''Ann''), (''birthdate'', PyStr ''1990-01-01'')],
           date_times = sconst 0\<rparr>)"
    by (simp add: demo_defs generator_defs)
  from generate_user_timestamps [OF run] run show ?thesis
    by (simp add: demo_faker_def)
qed

text \<open>
  C4. In every purchase that \<^verbatim>\<open>generate_purchases\<close> returns, \<open>purchased_at\<close> is
  \<^verbatim>\<open>None\<close> whenever \<open>added_to_cart_at\<close> is, and \<open>returned_at\<close> is \<^verbatim>\<open>None\<close>
  whenever \<open>purchased_at\<close> is.
\<close>

theorem purchase_timestamps_chain:
  assumes "generate_purchases p products user purchases_count rng = Inr (purchases, rng')"
  shows "\<forall>purchase \<in> set purchases.
           (map_of purchase ''added_to_cart_at'' = Some PyNone
              \<longrightarrow> map_of purchase ''purchased_at'' = Some PyNone) \<and>
           (map_of purchase ''purchased_at'' = Some PyNone
              \<longrightarrow> map_of purchase ''returned_at'' = Some PyNone)"
proof -
  let ?chain = "\<lambda>purchase.
           (map_of purchase ''added_to_cart_at'' = Some PyNone
              \<longrightarrow> map_of purchase ''purchased_at'' = Some PyNone) \<and>
           (map_of purchase ''purchased_at'' = Some PyNone
              \<longrightarrow> map_of purchase ''returned_at'' = Some PyNone)"
  have loop: "list_all ?chain ps"
    if "purchases_loop p user pc tp remaining i acc rng = Inr (ps, rng')" "list_all ?chain acc"
    for pc tp remaining i acc rng ps
    using that
  proof (induction p user pc tp remaining i acc rng rule: purchases_loop.induct)
    case (1 p user pc tp remaining i acc rng)
    show ?case
    proof (cases "remaining > 0")
      case False
      with "1.prems" show ?thesis by (simp add: purchases_loop.simps)
    next
      case True
      from "1.prems"(1) True obtain purchase rng1 r rng2 where
        mp: "make_purchase p user pc tp i rng = Inr (purchase, rng1)" and
        rr: "randrange 1 100 rng1 = Inr (r, rng2)" and
        rec: "purchases_loop p user pc tp (remaining - r) (i + 1) (acc @ [purchase]) rng2
                = Inr (ps, rng')"
        by (rule purchases_loop_step)
      have "?chain purchase"
        using make_purchase_shape [OF mp] by auto
      with "1.prems"(2) have "list_all ?chain (acc @ [purchase])" by simp
      from "1.IH" [OF True mp refl rr refl rec this] show ?thesis .
    qed
  qed
  from assms obtain r rng1 where
    "purchases_loop p user purchases_count (int (length products)) (80 - r) 0 [] rng1
       = Inr (purchases, rng')"
    by (auto simp: generate_purchases_def Let_def split: sum.splits)
  then have "list_all ?chain purchases"
    by (rule loop) simp
  then show ?thesis
    by (simp add: list_all_iff)
qed

theorem purchase_timestamps_chain_witness:
  "generate_purchases demo_process demo_products demo_user (Some 7) demo_rng =
     Inr (demo_purchases, sconst 0) \<and>
   map_of (demo_purchases ! 0) ''purchased_at'' = Some PyNone \<and>
   map_of (demo_purchases ! 0) ''returned_at'' = Some PyNone \<and>
   map_of (demo_purchases ! 1) ''purchased_at'' = Some (PyTime 172800000002) \<and>
   map_of (demo_purchases ! 1) ''returned_at'' = Some PyNone"
proof -
  have run: "generate_purchases demo_process demo_products demo_user (Some 7) demo_rng =
     Inr (demo_purchases, sconst 0)"
    by (simp add: demo_defs generator_defs purchases_loop.simps)
  from purchase_timestamps_chain [OF run] run show ?thesis
    by (simp add: demo_purchases_def)
qed

lemma purchases_loop_trace:
  "purchases_loop p user pc tp remaining i acc rng = Inr (ps, rng')
     \<Longrightarrow> \<exists>new. ps = acc @ new \<and> budget_trace p user pc tp remaining i rng new rng'"
proof (induction p user pc tp remaining i acc rng rule: purchases_loop.induct)
  case (1 p user pc tp remaining i acc rng)
  show ?case
  proof (cases "remaining > 0")
    case False
    with "1.prems" have "ps = acc" "rng' = rng" by (simp_all add: purchases_loop.simps)
    with False show ?thesis by (intro exI [of _ "[]"]) simp
  next
    case True
    from "1.prems"(1) True obtain purchase rng1 r rng2 where
      mp: "make_purchase p user pc tp i rng = Inr (purchase, rng1)" and
      rr: "randrange 1 100 rng1 = Inr (r, rng2)" and
      rec: "purchases_loop p user pc tp (remaining - r) (i + 1) (acc @ [purchase]) rng2
              = Inr (ps, rng')"
      by (rule purchases_loop_step)
    from "1.IH" [OF True mp refl rr refl rec] obtain new where
      new: "ps = (acc @ [purchase]) @ new"
           "budget_trace p user pc tp (remaining - r) (i + 1) rng2 new rng'"
      by blast
    from randrange_Inr [OF rr] have "1 \<le> r" "r \<le> 99" by simp_all
    with new True mp rr show ?thesis
      by (intro exI [of _ "purchase # new"]) simp
  qed
qed

lemma trace_purchases_loop:
  "budget_trace p user pc tp remaining i rng new rng'
     \<Longrightarrow> purchases_loop p user pc tp remaining i acc rng = Inr (acc @ new, rng')"
proof (induction new arbitrary: remaining i rng acc)
  case Nil
  then show ?case by (simp add: purchases_loop.simps)
next
  case (Cons purchase rest)
  from Cons.prems have pos: "0 < remaining" by simp
  from Cons.prems obtain made rng1 where
    mp0: "make_purchase p user pc tp i rng = Inr (made, rng1)"
    by (cases "make_purchase p user pc tp i rng") auto
  from Cons.prems mp0 obtain r rng2 where
    rr: "randrange 1 100 rng1 = Inr (r, rng2)"
    by (cases "randrange 1 100 rng1") auto
  from Cons.prems mp0 rr have
    mp: "make_purchase p user pc tp i rng = Inr (purchase, rng1)" and
    tr: "budget_trace p user pc tp (remaining - r) (i + 1) rng2 rest rng'"
    by simp_all
  from Cons.IH [OF tr, of "acc @ [purchase]"] pos mp rr show ?case
    by (subst purchases_loop.simps) simp
qed

text \<open>
  C7, amended. The budget starts at 80 and each iteration, the one before the first
  purchase included, takes off one \<^verbatim>\<open>random.randrange(1, 100)\<close>, an integer from 1
  to 99 and never 100, each of which can be drawn. \<^verbatim>\<open>generate_purchases\<close> returns a
  list of purchases exactly when that list passes \<open>budget_trace\<close> from 80 less the first
  draw: a purchase is generated for each budget that is positive, the next draw is taken
  off after it, and the loop ends at the first budget that is not positive. So there are
  no purchases exactly when the first draw leaves nothing of the 80, and then the call
  returns the empty list.
\<close>

theorem purchase_budget:
  "(\<exists>r. randrange 1 100 rng = Inr (r, stl rng) \<and> 1 \<le> r \<and> r \<le> 99) \<and>
   (\<forall>r. 1 \<le> r \<and> r \<le> 99 \<longrightarrow>
        randrange 1 100 (sconst (nat (r - 1))) = Inr (r, sconst (nat (r - 1)))) \<and>
   (generate_purchases p products user purchases_count rng = Inr (purchases, rng') \<longleftrightarrow>
      (\<exists>r. randrange 1 100 rng = Inr (r, stl rng) \<and>
           budget_trace p user purchases_count (int (length products)) (80 - r) 0 (stl rng)
             purchases rng')) \<and>
   (\<forall>r. randrange 1 100 rng = Inr (r, stl rng) \<and>
        generate_purchases p products user purchases_count rng = Inr (purchases, rng')
        \<longrightarrow> (purchases = [] \<longleftrightarrow> 80 - r \<le> 0)) \<and>
   (\<forall>r. randrange 1 100 rng = Inr (r, stl rng) \<and> 80 - r \<le> 0 \<longrightarrow>
        generate_purchases p products user purchases_count rng = Inr ([], stl rng))"
proof (intro conjI)
  have first: "randrange 1 100 rng = Inr (1 + int (shd rng) mod 99, stl rng)"
    by (simp add: randrange_def)
  show "\<exists>r. randrange 1 100 rng = Inr (r, stl rng) \<and> 1 \<le> r \<and> r \<le> 99"
    by (simp add: randrange_def)
  show "\<forall>r. 1 \<le> r \<and> r \<le> 99 \<longrightarrow>
        randrange 1 100 (sconst (nat (r - 1))) = Inr (r, sconst (nat (r - 1)))"
    by (auto simp: randrange_def)
  have gp: "generate_purchases p products user purchases_count rng =
      purchases_loop p user purchases_count (int (length products))
        (80 - (1 + int (shd rng) mod 99)) 0 [] (stl rng)"
    by (simp add: generate_purchases_def Let_def first)
  show iff: "generate_purchases p products user purchases_count rng = Inr (purchases, rng') \<longleftrightarrow>
      (\<exists>r. randrange 1 100 rng = Inr (r, stl rng) \<and>
           budget_trace p user purchases_count (int (length products)) (80 - r) 0 (stl rng)
             purchases rng')"
  proof
    assume "generate_purchases p products user purchases_count rng = Inr (purchases, rng')"
    with gp purchases_loop_trace
      [of p user purchases_count "int (length products)" "80 - (1 + int (shd rng) mod 99)" 0
          "[]" "stl rng" purchases rng']
    have "budget_trace p user purchases_count (int (length products))
            (80 - (1 + int (shd rng) mod 99)) 0 (stl rng) purchases rng'"
      by simp
    with first show "\<exists>r. randrange 1 100 rng = Inr (r, stl rng) \<and>
           budget_trace p user purchases_count (int (length products)) (80 - r) 0 (stl rng)
             purchases rng'"
      by blast
  next
    assume "\<exists>r. randrange 1 100 rng = Inr (r, stl rng) \<and>
           budget_trace p user purchases_count (int (length products)) (80 - r) 0 (stl rng)
             purchases rng'"
    with first have "budget_trace p user purchases_count (int (length products))
            (80 - (1 + int (shd rng) mod 99)) 0 (stl rng) purchases rng'"
      by auto
    from trace_purchases_loop [OF this, of "[]"] gp
    show "generate_purchases p products user purchases_count rng = Inr (purchases, rng')"
      by simp
  qed
  show "\<forall>r. randrange 1 100 rng = Inr (r, stl rng) \<and>
        generate_purchases p products user purchases_count rng = Inr (purchases, rng')
        \<longrightarrow> (purchases = [] \<longleftrightarrow> 80 - r \<le> 0)"
  proof (intro allI impI, elim conjE)
    fix r
    assume rr: "randrange 1 100 rng = Inr (r, stl rng)"
      and g: "generate_purchases p products user purchases_count rng = Inr (purchases, rng')"
    from g iff rr have "budget_trace p user purchases_count (int (length products)) (80 - r) 0
        (stl rng) purchases rng'"
      by auto
    then show "purchases = [] \<longleftrightarrow> 80 - r \<le> 0"
      by (cases purchases) auto
  qed
  show "\<forall>r. randrange 1 100 rng = Inr (r, stl rng) \<and> 80 - r \<le> 0 \<longrightarrow>
        generate_purchases p products user purchases_count rng = Inr ([], stl rng)"
    by (auto simp: generate_purchases_def Let_def purchases_loop.simps)
qed

theorem purchase_budget_witness:
  "generate_purchases demo_process demo_products demo_user (Some 7) demo_rng =
     Inr (demo_purchases, sconst 0) \<and>
   randrange 1 100 demo_rng = Inr (10, stl demo_rng) \<and>
   budget_trace demo_process demo_user (Some 7) (int (length demo_products)) 70 0
     (stl demo_rng) demo_purchases (sconst 0) \<and>
   randrange 1 100 (stl (stl (stl (stl demo_rng)))) = Inr (30, stl (stl (stl (stl (stl demo_rng))))) \<and>
   randrange 1 100 (sconst 98) = Inr (99, sconst 98)"
proof -
  have run: "generate_purchases demo_process demo_products demo_user (Some 7) demo_rng =
     Inr (demo_purchases, sconst 0)"
    by (simp add: demo_defs generator_defs purchases_loop.simps)
  have draw: "randrange 1 100 demo_rng = Inr (10, stl demo_rng)"
    by (simp add: demo_rng_def randrange_def)
  have draws: "randrange 1 100 (stl (stl (stl (stl demo_rng))))
                 = Inr (30, stl (stl (stl (stl (stl demo_rng)))))"
    "randrange 1 100 (sconst 98) = Inr (99, sconst 98)"
    by (simp_all add: demo_rng_def randrange_def)
  from purchase_budget
    [of demo_rng demo_process demo_products demo_user "Some 7" demo_purchases "sconst 0"]
    run draw draws
  show ?thesis by auto
qed

text \<open>
  C7 as stated has the draw range over 1 to 100; no state of the random source makes
  \<^verbatim>\<open>random.randrange(1, 100)\<close> return 100.
\<close>

theorem randrange_percent_never_100:
  "\<not> (\<exists>rng rng'. randrange 1 100 rng = Inr (100, rng'))"
  by (auto dest: randrange_Inr)

text \<open>
  C8. With at least one whole day between the two dates, \<^verbatim>\<open>random_date_in_range\<close>
  returns the start date plus a whole number of days from 0 up to, and not including,
  the number of days between them, and every such offset is returned for some state of
  the random source. With the end date equal to the start date it raises.
\<close>

theorem random_date_in_range_support:
  "(0 < days_between start_date end_date \<longrightarrow>
      (\<exists>k. random_date_in_range p start_date (Some end_date) rng
              = Inr (start_date + k * us_per_day, stl rng)
           \<and> 0 \<le> k \<and> k < days_between start_date end_date))
   \<and> (\<forall>k. 0 \<le> k \<and> k < days_between start_date end_date \<longrightarrow>
         random_date_in_range p start_date (Some end_date) (sconst (nat k))
           = Inr (start_date + k * us_per_day, sconst (nat k)))
   \<and> random_date_in_range p start_date (Some start_date) rng = Inl EmptyRange
   \<and> is_ValueError EmptyRange"
  by (auto simp: random_date_in_range_def randrange_def days_between_def Let_def)

theorem random_date_in_range_support_witness:
  "0 < days_between 0 (3 * us_per_day + 5) \<and>
   random_date_in_range demo_process 0 (Some (3 * us_per_day + 5)) (sconst 7)
     = Inr (1 * us_per_day, sconst 7) \<and>
   days_between 0 (3 * us_per_day + 5) = 3 \<and>
   random_date_in_range demo_process 0 (Some 0) (sconst 7) = Inl EmptyRange"
  using random_date_in_range_support [of 0 "3 * us_per_day + 5" demo_process "sconst 7"]
  by (simp add: random_date_in_range_def randrange_def days_between_def us_per_day_def)

text \<open>
  C10. The default of \<^verbatim>\<open>end_date\<close> is the clock at the moment the module was
  imported: after the clock has moved on by any amount, a call that leaves
  \<^verbatim>\<open>end_date\<close> out returns what a call with that moment as its end date returns,
  and not what a call with the clock of the moment of the call returns.
\<close>

theorem default_end_date_fixed_at_import:
  "random_date_in_range (advance d (import_module p)) start_date None rng
     = random_date_in_range q start_date (Some (clock p)) rng
   \<and> random_date_in_range (advance us_per_day (import_module p)) (clock p - us_per_day) None
       (sconst 1)
     \<noteq> random_date_in_range (advance us_per_day (import_module p)) (clock p - us_per_day)
          (Some (clock (advance us_per_day (import_module p)))) (sconst 1)"
  by (simp add: random_date_in_range_def import_module_def advance_def randrange_def
        days_between_def us_per_day_def Let_def)

section \<open>The sync driver: configuration error\<close>





section \<open>The sync driver: facts about the loops\<close>

subsection \<open>Records, ids and purchases of one user\<close>

lemma records_of_append [simp]:
  "records_of nm (xs @ ys) = records_of nm xs @ records_of nm ys"
  by (induction nm xs rule: records_of.induct) auto

lemma records_of_map_Record [simp]:
  "records_of nm (map (Record n) ds) = (if n = nm then ds else [])"
  by (induction ds) auto

lemma records_of_map_Record_comp [simp]:
  "records_of nm (map (Record n \<circ> f) ds) = (if n = nm then map f ds else [])"
  by (induction ds) auto

lemma records_of_map_Record_fun [simp]:
  "records_of nm (map (\<lambda>d. Record n (f d)) ds) = (if n = nm then map f ds else [])"
  by (induction ds) auto

lemma ids_from_Nil [simp]: "ids_from c []"
  by (simp add: ids_from_def)

lemma ids_from_Cons [simp]:
  "ids_from c (d # ds) \<longleftrightarrow> map_of d ''id'' = Some (PyInt (c + 1)) \<and> ids_from (c + 1) ds"
proof -
  have "[0..<Suc (length ds)] = 0 # map Suc [0..<length ds]"
    by (simp add: upt_conv_Cons map_Suc_upt del: upt_Suc)
  then show ?thesis
    by (simp add: ids_from_def o_def add.commute add.left_commute del: upt_Suc)
qed

lemma ids_from_append:
  "ids_from c (xs @ ys) \<longleftrightarrow> ids_from c xs \<and> ids_from (c + int (length xs)) ys"
  by (induction xs arbitrary: c) (auto simp: add.assoc)

lemma ids_from_nth:
  "ids_from c ds \<Longrightarrow> i < length ds \<Longrightarrow> map_of (ds ! i) ''id'' = Some (PyInt (c + int i + 1))"
proof -
  assume a: "ids_from c ds" and i: "i < length ds"
  from a have "map (\<lambda>d. map_of d ''id'') ds ! i
      = map (\<lambda>k. Some (PyInt (c + int k + 1))) [0..<length ds] ! i"
    by (simp add: ids_from_def)
  with i show ?thesis by simp
qed

lemma map_of_isoformat_values:
  "map_of (isoformat_values d) k
     = map_option (\<lambda>v. case v of PyTime t \<Rightarrow> PyIso t | _ \<Rightarrow> v) (map_of d k)"
  by (induction d) (auto simp: isoformat_values_def split: pyval.splits)

lemma ids_from_isoformat:
  "ids_from c ds \<Longrightarrow> ids_from c (map isoformat_values ds)"
  by (induction ds arbitrary: c) (auto simp: map_of_isoformat_values)

lemma purchases_loop_ids:
  "purchases_loop p user (Some pc) tp remaining i acc rng = Inr (ps, rng')
     \<Longrightarrow> \<exists>new. ps = acc @ new \<and> ids_from (pc + i) new"
proof (induction p user "Some pc" tp remaining i acc rng rule: purchases_loop.induct)
  case (1 p user tp remaining i acc rng)
  show ?case
  proof (cases "remaining > 0")
    case False
    with "1.prems" show ?thesis by (simp add: purchases_loop.simps)
  next
    case True
    from "1.prems"(1) True obtain purchase rng1 r rng2 where
      mp: "make_purchase p user (Some pc) tp i rng = Inr (purchase, rng1)" and
      rr: "randrange 1 100 rng1 = Inr (r, rng2)" and
      rec: "purchases_loop p user (Some pc) tp (remaining - r) (i + 1) (acc @ [purchase]) rng2
              = Inr (ps, rng')"
      by (rule purchases_loop_step)
    from "1.hyps" [OF True mp refl rr refl rec] obtain new where
      new: "ps = (acc @ [purchase]) @ new" "ids_from (pc + (i + 1)) new" by blast
    from make_purchase_shape [OF mp] have "map_of purchase ''id'' = Some (PyInt (pc + i + 1))"
      by auto
    with new show ?thesis
      by (intro exI [of _ "purchase # new"]) (simp add: add.assoc)
  qed
qed

lemma generate_purchases_ids:
  "generate_purchases p products user (Some pc) rng = Inr (ps, rng') \<Longrightarrow> ids_from pc ps"
  by (auto simp: generate_purchases_def Let_def split: sum.splits dest!: purchases_loop_ids)

lemma generate_purchases_None:
  "generate_purchases p products user None rng = Inr (ps, rng') \<Longrightarrow> ps = []"
  by (auto simp: generate_purchases_def Let_def purchases_loop.simps make_purchase_def
        split: sum.splits if_splits)

lemma emit_purchases_Some:
  "emit_purchases ps ds (Some pc)
     = (map (generate_record ps) ds, Inr (Some (pc + int (length ds))))"
  by (induction ds arbitrary: pc) (auto simp: add.assoc)


lemma map_generate_record:
  "map (generate_record ps) ds = map (Record (stream_name ps)) (map isoformat_values ds)"
  by (simp add: generate_record_def)

lemma generate_user_id:
  "generate_user fk i = Inr (user, fk') \<Longrightarrow> map_of user ''id'' = Some (PyInt (i + 1))"
  by (auto simp: generate_user_def fake_profile_def fake_date_time_def map_of_dict_set
        split: sum.splits)

lemma user_purchases_result:
  assumes up: "user_purchases cx user r = (ms, res)" and ok: "ctx_ok cx"
  shows "\<exists>ds. ms = map (Record ''Purchases'') ds \<and>
           (\<forall>pc. run_purchases_count r = Some pc \<longrightarrow>
              ids_from pc ds \<and>
              (\<forall>r1. res = Inr r1 \<longrightarrow> run_purchases_count r1 = Some (pc + int (length ds)))) \<and>
           (\<forall>r1. res = Inr r1 \<longrightarrow> run_state r1 = run_state r \<and> run_fake r1 = run_fake r) \<and>
           (c_purchases_stream cx = None \<longrightarrow> ds = [])"
proof (cases "c_to_generate_purchases cx")
  case False
  with up have "ms = []" "res = Inr r" by (simp_all add: user_purchases_def)
  then show ?thesis by simp
next
  case True
  with ok obtain ps where ps: "c_purchases_stream cx = Some ps" "stream_name ps = ''Purchases''"
    by (auto simp: ctx_ok_def split: option.splits)
  show ?thesis
  proof (cases "generate_purchases (c_process cx) (c_products cx) user
                  (run_purchases_count r) (run_rng r)")
    case (Inl e)
    with up True have "ms = []" "res = Inl e" by (simp_all add: user_purchases_def)
    then show ?thesis by simp
  next
    case (Inr x)
    obtain purchases rng' where x: "x = (purchases, rng')" by (cases x)
    show ?thesis
    proof (cases "run_purchases_count r")
      case None
      with Inr x have "purchases = []" by (auto dest: generate_purchases_None)
      with up True Inr x ps None have "ms = []"
        "res = Inr (r\<lparr>run_purchases_count := None, run_rng := rng'\<rparr>)"
        by (simp_all add: user_purchases_def)
      with None show ?thesis by simp
    next
      case (Some pc)
      from Inr x Some have ids: "ids_from pc purchases"
        by (auto dest: generate_purchases_ids)
      from up True Inr x ps Some have
        "ms = map (Record ''Purchases'') (map isoformat_values purchases)"
        "res = Inr (r\<lparr>run_purchases_count := Some (pc + int (length purchases)),
                        run_rng := rng'\<rparr>)"
        by (simp_all add: user_purchases_def emit_purchases_Some map_generate_record)
      with Some ids_from_isoformat [OF ids] ps(1) show ?thesis
        by (intro exI [of _ "map isoformat_values purchases"]) simp
    qed
  qed
qed

lemma user_iteration_cases [consumes 3, case_names gen_fail purchases_fail ok]:
  assumes ui: "user_iteration cx stream i cs r = (ms, res)"
      and nm: "stream_name stream = ''Users''"
      and cok: "ctx_ok cx"
  obtains
    (gen_fail) e where "ms = []" "res = Inl e"
  | (purchases_fail) user ds e where
      "ms = Record ''Users'' user # map (Record ''Purchases'') ds" "res = Inl e"
      "map_of user ''id'' = Some (PyInt (i + 1))"
      "\<And>pc. run_purchases_count r = Some pc \<Longrightarrow> ids_from pc ds"
      "c_purchases_stream cx = None \<Longrightarrow> ds = []"
  | (ok) user ds cs' r' where
      "ms = Record ''Users'' user # map (Record ''Purchases'') ds @
              (if records_in_page cs + 1 = c_records_per_slice cx
               then [State (dict_set (run_state r) ''Users''
                              (users_checkpoint (total_records cs + 1) (c_seed cx)))]
               else [])"
      "res = Inr (cs', r')"
      "map_of user ''id'' = Some (PyInt (i + 1))"
      "\<And>pc. run_purchases_count r = Some pc \<Longrightarrow>
             ids_from pc ds \<and> run_purchases_count r' = Some (pc + int (length ds))"
      "total_records cs' = total_records cs + 1"
      "records_in_sync cs' = records_in_sync cs + 1"
      "records_in_page cs' =
         (if records_in_page cs + 1 = c_records_per_slice cx then 0 else records_in_page cs + 1)"
      "run_state r' =
         (if records_in_page cs + 1 = c_records_per_slice cx
          then dict_set (run_state r) ''Users''
                 (users_checkpoint (total_records cs + 1) (c_seed cx))
          else run_state r)"
      "c_purchases_stream cx = None \<Longrightarrow> ds = []"
proof (cases "generate_user (run_fake r) i")
  case (Inl e)
  with ui have "ms = []" "res = Inl e" by (simp_all add: user_iteration_def)
  then show ?thesis by (rule gen_fail)
next
  case (Inr x)
  obtain user fk' where x: "x = (user, fk')" by (cases x)
  from Inr x have uid: "map_of (isoformat_values user) ''id'' = Some (PyInt (i + 1))"
    by (simp add: map_of_isoformat_values generate_user_id)
  obtain pms pres where up: "user_purchases cx user (r\<lparr>run_fake := fk'\<rparr>) = (pms, pres)"
    by (cases "user_purchases cx user (r\<lparr>run_fake := fk'\<rparr>)")
  from user_purchases_result [OF up cok] obtain ds where
    dsall: "pms = map (Record ''Purchases'') ds \<and>
           (\<forall>pc. run_purchases_count (r\<lparr>run_fake := fk'\<rparr>) = Some pc \<longrightarrow>
              ids_from pc ds \<and>
              (\<forall>r1. pres = Inr r1 \<longrightarrow> run_purchases_count r1 = Some (pc + int (length ds)))) \<and>
           (\<forall>r1. pres = Inr r1 \<longrightarrow>
              run_state r1 = run_state (r\<lparr>run_fake := fk'\<rparr>) \<and>
              run_fake r1 = run_fake (r\<lparr>run_fake := fk'\<rparr>)) \<and>
           (c_purchases_stream cx = None \<longrightarrow> ds = [])"
    ..
  have rf: "run_purchases_count (r\<lparr>run_fake := fk'\<rparr>) = run_purchases_count r"
    "run_state (r\<lparr>run_fake := fk'\<rparr>) = run_state r"
    by simp_all
  have ds: "pms = map (Record ''Purchases'') ds"
        "\<And>pc. run_purchases_count r = Some pc \<Longrightarrow> ids_from pc ds"
        "\<And>pc r1. run_purchases_count r = Some pc \<Longrightarrow> pres = Inr r1
           \<Longrightarrow> run_purchases_count r1 = Some (pc + int (length ds))"
        "\<And>r1. pres = Inr r1 \<Longrightarrow> run_state r1 = run_state r"
        "c_purchases_stream cx = None \<Longrightarrow> ds = []"
    using dsall unfolding rf by blast+
  show ?thesis
  proof (cases pres)
    case (Inl e)
    with ui Inr x up ds(1) nm have
      "ms = Record ''Users'' (isoformat_values user) # map (Record ''Purchases'') ds"
      "res = Inl e"
      by (simp_all add: user_iteration_def generate_record_def Let_def)
    then show ?thesis using uid ds(2) ds(5) by (rule purchases_fail)
  next
    case r1: (Inr r1)
    let ?cond = "records_in_page cs + 1 = c_records_per_slice cx"
    let ?st = "dict_set (run_state r) ''Users''
                 (users_checkpoint (total_records cs + 1) (c_seed cx))"
    let ?cs' = "\<lparr>total_records = total_records cs + 1,
                 records_in_sync = records_in_sync cs + 1,
                 records_in_page = (if ?cond then 0 else records_in_page cs + 1)\<rparr>"
    let ?r' = "r1\<lparr>run_state := (if ?cond then ?st else run_state r)\<rparr>"
    have st1: "run_state r1 = run_state r" using ds(4) r1 by simp
    have both: "ms = Record ''Users'' (isoformat_values user) # map (Record ''Purchases'') ds @
                  (if ?cond then [State ?st] else []) \<and> res = Inr (?cs', ?r')"
      using ui Inr x up ds(1) nm r1
      by (auto simp: user_iteration_def generate_record_def generate_state_def Let_def
            users_checkpoint_def st1 [symmetric] split: if_splits)
    have pcs: "ids_from pc ds \<and> run_purchases_count ?r' = Some (pc + int (length ds))"
      if "run_purchases_count r = Some pc" for pc
      using ds(2) [OF that] ds(3) [OF that r1] by simp
    show ?thesis
    proof (rule ok [of "isoformat_values user" ds ?cs' ?r'])
      show "c_purchases_stream cx = None \<Longrightarrow> ds = []" by (rule ds(5))
      show "\<And>pc. run_purchases_count r = Some pc \<Longrightarrow>
             ids_from pc ds \<and> run_purchases_count ?r' = Some (pc + int (length ds))"
        by (rule pcs)
    qed (use both uid in simp_all)
  qed
qed


lemma users_loop_msgs_induct [consumes 1, case_names finished failed stopped continued]:
  assumes run: "users_loop cx stream i cs r = (ms, res)"
    and "\<And>i cs r. \<not> i < c_count cx \<Longrightarrow> P i cs r [] (Inr (cs, r))"
    and "\<And>i cs r ms e. i < c_count cx \<Longrightarrow> user_iteration cx stream i cs r = (ms, Inl e)
           \<Longrightarrow> P i cs r ms (Inl e)"
    and "\<And>i cs r ms cs' r'. i < c_count cx
           \<Longrightarrow> user_iteration cx stream i cs r = (ms, Inr (cs', r'))
           \<Longrightarrow> records_in_sync cs' = c_records_per_sync cx
           \<Longrightarrow> P i cs r ms (Inr (cs', r'))"
    and "\<And>i cs r ms1 cs1 r1 ms2 res. i < c_count cx
           \<Longrightarrow> user_iteration cx stream i cs r = (ms1, Inr (cs1, r1))
           \<Longrightarrow> records_in_sync cs1 \<noteq> c_records_per_sync cx
           \<Longrightarrow> users_loop cx stream (i + 1) cs1 r1 = (ms2, res)
           \<Longrightarrow> P (i + 1) cs1 r1 ms2 res
           \<Longrightarrow> P i cs r (ms1 @ ms2) res"
  shows "P i cs r ms res"
  using assms
proof (induction cx stream i cs r arbitrary: ms res rule: users_loop.induct)
  case (1 cx stream i cs r)
  note fin = "1.prems"(2) and failed = "1.prems"(3) and stopped = "1.prems"(4)
    and continued = "1.prems"(5)
  show ?case
  proof (cases "i < c_count cx")
    case False
    with "1.prems"(1) have "ms = []" "res = Inr (cs, r)"
      by (simp_all add: users_loop.simps)
    with fin [OF False] show ?thesis by simp
  next
    case True
    obtain ms1 res1 where ui: "user_iteration cx stream i cs r = (ms1, res1)"
      by (cases "user_iteration cx stream i cs r")
    show ?thesis
    proof (cases res1)
      case (Inl e)
      with "1.prems"(1) True ui have "ms = ms1" "res = Inl e"
        by (simp_all add: users_loop.simps)
      with failed [OF True] ui Inl show ?thesis by simp
    next
      case (Inr y)
      obtain cs1 r1 where y: "y = (cs1, r1)" by (cases y)
      show ?thesis
      proof (cases "records_in_sync cs1 = c_records_per_sync cx")
        case brk: True
        with "1.prems"(1) True ui Inr y have "ms = ms1" "res = Inr (cs1, r1)"
          by (simp_all add: users_loop.simps)
        with stopped [OF True _ brk] ui Inr y show ?thesis by simp
      next
        case cont: False
        obtain ms2 res2 where rec: "users_loop cx stream (i + 1) cs1 r1 = (ms2, res2)"
          by (cases "users_loop cx stream (i + 1) cs1 r1")
        with "1.prems"(1) True ui Inr y cont have eq: "ms = ms1 @ ms2" "res = res2"
          by (simp_all add: users_loop.simps)
        have ui': "user_iteration cx stream i cs r = (ms1, Inr (cs1, r1))"
          using ui Inr y by simp
        have "P (i + 1) cs1 r1 ms2 res2"
          by (rule "1.IH" [OF True ui' [symmetric] refl refl cont rec fin failed stopped continued])
        from continued [OF True ui' cont rec this] eq show ?thesis by simp
      qed
    qed
  qed
qed



lemma users_loop_users:
  assumes run: "users_loop cx stream i cs r = (ms, res)"
      and nm: "stream_name stream = ''Users''" and cok: "ctx_ok cx"
  shows "ids_from i (records_of ''Users'' ms) \<and>
         (records_of ''Users'' ms = [] \<or>
          i + int (length (records_of ''Users'' ms)) \<le> c_count cx) \<and>
         (\<forall>cs' r'. res = Inr (cs', r') \<longrightarrow>
            total_records cs' = total_records cs + int (length (records_of ''Users'' ms)))"
  using run
proof (induction rule: users_loop_msgs_induct)
  case (finished i cs r)
  then show ?case by simp
next
  case (failed i cs r ms e)
  from failed(2) nm cok show ?case
  proof (cases rule: user_iteration_cases)
    case (purchases_fail user ds e)
    from purchases_fail(1) have "records_of ''Users'' ms = [user]" by simp
    with purchases_fail(3) failed(1) show ?thesis by simp
  next
    case (gen_fail e)
    then show ?thesis by simp
  next
    case (ok user ds cs' r')
    from ok(2) show ?thesis by simp
  qed
next
  case (stopped i cs r ms cs' r')
  from stopped(2) nm cok show ?case
  proof (cases rule: user_iteration_cases)
    case (ok user ds cs'' r'')
    from ok(1) have "records_of ''Users'' ms = [user]" by simp
    with ok(2,3,5) stopped(1) show ?thesis by simp
  next
    case (gen_fail e)
    from gen_fail(2) show ?thesis by simp
  next
    case (purchases_fail user ds e)
    from purchases_fail(2) show ?thesis by simp
  qed
next
  case (continued i cs r ms1 cs1 r1 ms2 res)
  from continued(2) nm cok show ?case
  proof (cases rule: user_iteration_cases)
    case (ok user ds cs'' r'')
    from ok(1) have u: "records_of ''Users'' ms1 = [user]" by simp
    from ok(2,5) have t: "total_records cs1 = total_records cs + 1" by simp
    from continued(5) have
      a: "ids_from (i + 1) (records_of ''Users'' ms2)" and
      b: "records_of ''Users'' ms2 = [] \<or>
          i + 1 + int (length (records_of ''Users'' ms2)) \<le> c_count cx" and
      c: "\<forall>cs' r'. res = Inr (cs', r') \<longrightarrow>
            total_records cs' = total_records cs1 + int (length (records_of ''Users'' ms2))"
      by blast+
    have "ids_from i (records_of ''Users'' (ms1 @ ms2))"
      using u a ok(3) by simp
    moreover have "i + int (length (records_of ''Users'' (ms1 @ ms2))) \<le> c_count cx"
      using u b continued(1) by auto
    moreover have "\<forall>cs' r'. res = Inr (cs', r') \<longrightarrow>
        total_records cs' = total_records cs + int (length (records_of ''Users'' (ms1 @ ms2)))"
    proof (intro allI impI)
      fix cs' r'
      assume "res = Inr (cs', r')"
      from c [rule_format, OF this] show
        "total_records cs' = total_records cs + int (length (records_of ''Users'' (ms1 @ ms2)))"
        by (simp add: u t)
    qed
    ultimately show ?thesis by blast
  next
    case (gen_fail e)
    from gen_fail(2) show ?thesis by simp
  next
    case (purchases_fail user ds e)
    from purchases_fail(2) show ?thesis by simp
  qed
qed



lemma users_loop_purchases:
  assumes run: "users_loop cx stream i cs r = (ms, res)"
      and nm: "stream_name stream = ''Users''" and cok: "ctx_ok cx"
  shows "\<forall>pc. run_purchases_count r = Some pc \<longrightarrow>
           ids_from pc (records_of ''Purchases'' ms) \<and>
           (\<forall>cs' r'. res = Inr (cs', r') \<longrightarrow>
              run_purchases_count r' = Some (pc + int (length (records_of ''Purchases'' ms))))"
  using run
proof (induction rule: users_loop_msgs_induct)
  case (finished i cs r)
  then show ?case by simp
next
  case (failed i cs r ms e)
  from failed(2) nm cok show ?case
    by (cases rule: user_iteration_cases) auto
next
  case (stopped i cs r ms cs' r')
  from stopped(2) nm cok show ?case
    by (cases rule: user_iteration_cases) auto
next
  case (continued i cs r ms1 cs1 r1 ms2 res)
  from continued(2) nm cok show ?case
  proof (cases rule: user_iteration_cases)
    case (ok user ds cs' r')
    show ?thesis
    proof (intro allI impI)
      fix pc
      assume pc: "run_purchases_count r = Some pc"
      from ok(4) [OF pc] ok(2) have
        a: "ids_from pc ds" "run_purchases_count r1 = Some (pc + int (length ds))" by auto
      from continued(5) a(2) have
        b: "ids_from (pc + int (length ds)) (records_of ''Purchases'' ms2)"
           "\<forall>cs' r'. res = Inr (cs', r') \<longrightarrow>
              run_purchases_count r' =
                Some (pc + int (length ds) + int (length (records_of ''Purchases'' ms2)))"
        by auto
      from a b ok(1) show "ids_from pc (records_of ''Purchases'' (ms1 @ ms2)) \<and>
        (\<forall>cs' r'. res = Inr (cs', r') \<longrightarrow> run_purchases_count r' =
           Some (pc + int (length (records_of ''Purchases'' (ms1 @ ms2)))))"
        by (auto simp: ids_from_append add.assoc)
    qed
  qed auto
qed



lemma users_loop_frame:
  assumes run: "users_loop cx stream i cs r = (ms, res)"
      and nm: "stream_name stream = ''Users''" and cok: "ctx_ok cx"
  shows "(nm' \<noteq> ''Users'' \<longrightarrow> nm' \<noteq> ''Purchases'' \<longrightarrow> records_of nm' ms = []) \<and>
         (\<forall>cs' r'. res = Inr (cs', r') \<longrightarrow>
            (\<forall>k. k \<noteq> ''Users'' \<longrightarrow> map_of (run_state r') k = map_of (run_state r) k))"
  using run
proof (induction rule: users_loop_msgs_induct)
  case (finished i cs r)
  then show ?case by simp
next
  case (failed i cs r ms e)
  from failed(2) nm cok show ?case
    by (cases rule: user_iteration_cases) auto
next
  case (stopped i cs r ms cs' r')
  from stopped(2) nm cok show ?case
    by (cases rule: user_iteration_cases) (auto simp: map_of_dict_set)
next
  case (continued i cs r ms1 cs1 r1 ms2 res)
  from continued(2) nm cok show ?case
    by (cases rule: user_iteration_cases) (use continued(5) in \<open>auto simp: map_of_dict_set\<close>)
qed



lemma users_loop_no_purchases:
  assumes run: "users_loop cx stream i cs r = (ms, res)"
      and nm: "stream_name stream = ''Users''" and cok: "ctx_ok cx"
      and none: "c_purchases_stream cx = None"
  shows "records_of ''Purchases'' ms = []"
  using run
proof (induction rule: users_loop_msgs_induct)
  case (finished i cs r)
  then show ?case by simp
next
  case (failed i cs r ms e)
  from failed(2) nm cok show ?case
  proof (cases rule: user_iteration_cases)
    case (purchases_fail user ds e)
    from purchases_fail(1) purchases_fail(5) [OF none] show ?thesis by simp
  qed simp_all
next
  case (stopped i cs r ms cs' r')
  from stopped(2) nm cok show ?case
  proof (cases rule: user_iteration_cases)
    case (ok user ds cs'' r'')
    from ok(1) ok(9) [OF none] show ?thesis by simp
  qed simp_all
next
  case (continued i cs r ms1 cs1 r1 ms2 res)
  from continued(2) nm cok show ?case
  proof (cases rule: user_iteration_cases)
    case (ok user ds cs'' r'')
    from ok(1) ok(9) [OF none] continued(5) show ?thesis by simp
  qed simp_all
qed

subsection \<open>One configured stream\<close>

lemma emit_users_cases [consumes 1, case_names cursor_fail loop_fail ok]:
  assumes eu: "emit_users cx stream r = (ms, res)"
  obtains
    (cursor_fail) e where "ms = []" "res = Inl e"
      "get_stream_cursor (run_state r) (stream_name stream) = Inl e"
  | (loop_fail) c e where
      "get_stream_cursor (run_state r) (stream_name stream) = Inr c"
      "users_loop cx stream c \<lparr>total_records = c, records_in_sync = 0, records_in_page = 0\<rparr> r
         = (ms, Inl e)"
      "res = Inl e"
  | (ok) c ms0 cs r1 where
      "get_stream_cursor (run_state r) (stream_name stream) = Inr c"
      "users_loop cx stream c \<lparr>total_records = c, records_in_sync = 0, records_in_page = 0\<rparr> r
         = (ms0, Inr (cs, r1))"
      "ms = ms0 @ State (dict_set (run_state r1) (stream_name stream)
                          (users_checkpoint (total_records cs) (c_seed cx))) #
              (case c_purchases_stream cx of
                 None \<Rightarrow> []
               | Some ps \<Rightarrow>
                   [State (dict_set (dict_set (run_state r1) (stream_name stream)
                                      (users_checkpoint (total_records cs) (c_seed cx)))
                             (stream_name ps)
                             [(''purchases_count'', run_purchases_count r1)])])"
      "res = Inr (r1\<lparr>run_state :=
                (case c_purchases_stream cx of
                   None \<Rightarrow> dict_set (run_state r1) (stream_name stream)
                             (users_checkpoint (total_records cs) (c_seed cx))
                 | Some ps \<Rightarrow>
                     dict_set (dict_set (run_state r1) (stream_name stream)
                                 (users_checkpoint (total_records cs) (c_seed cx)))
                       (stream_name ps)
                       [(''purchases_count'', run_purchases_count r1)])\<rparr>)"
proof (cases "get_stream_cursor (run_state r) (stream_name stream)")
  case (Inl e)
  with eu have "ms = []" "res = Inl e" by (simp_all add: emit_users_def)
  then show ?thesis using Inl by (rule cursor_fail)
next
  case (Inr c)
  obtain ms0 res0 where
    ul: "users_loop cx stream c \<lparr>total_records = c, records_in_sync = 0, records_in_page = 0\<rparr> r
           = (ms0, res0)"
    by (cases "users_loop cx stream c
                 \<lparr>total_records = c, records_in_sync = 0, records_in_page = 0\<rparr> r")
  show ?thesis
  proof (cases res0)
    case e: (Inl e)
    with eu Inr ul have "ms = ms0" "res = Inl e" by (simp_all add: emit_users_def)
    with Inr ul e show ?thesis by (intro loop_fail [of c e]) simp_all
  next
    case y: (Inr y)
    obtain cs r1 where y2: "y = (cs, r1)" by (cases y)
    show ?thesis
      by (rule ok [of c ms0 cs r1])
         (use eu Inr ul y y2 in
           \<open>auto simp: emit_users_def generate_state_def Let_def users_checkpoint_def
              split: option.splits\<close>)
  qed
qed


lemma get_stream_cursor_dict_set:
  "get_stream_cursor (dict_set st k v) nm
     = (if nm = k then get_stream_cursor [(k, v)] nm else get_stream_cursor st nm)"
  by (simp add: get_stream_cursor_def map_of_dict_set)

lemma get_stream_cursor_users_checkpoint [simp]:
  "get_stream_cursor [(nm, users_checkpoint n seed)] nm = Inr n"
  by (simp add: get_stream_cursor_def users_checkpoint_def dict_get_def)

lemma initial_purchases_count_dict_set:
  "initial_purchases_count (dict_set st k v)
     = (if k = ''Purchases'' then dict_get v ''purchases_count''
        else initial_purchases_count st)"
  by (simp add: initial_purchases_count_def map_of_dict_set)

lemma initial_purchases_count_cong:
  "map_of st' ''Purchases'' = map_of st ''Purchases''
     \<Longrightarrow> initial_purchases_count st' = initial_purchases_count st"
  by (simp add: initial_purchases_count_def)

lemma emit_stream_users:
  assumes es: "emit_stream cx s r = (ms, res)" and cok: "ctx_ok cx"
      and cur: "get_stream_cursor (run_state r) ''Users'' = Inr c"
  shows "ids_from c (records_of ''Users'' ms) \<and>
         (records_of ''Users'' ms = [] \<or>
          c + int (length (records_of ''Users'' ms)) \<le> c_count cx) \<and>
         (\<forall>r'. res = Inr r' \<longrightarrow>
            get_stream_cursor (run_state r') ''Users''
              = Inr (c + int (length (records_of ''Users'' ms))))"
proof (cases "stream_name s = ''Users''")
  case True
  with es have eu: "emit_users cx s r = (ms, res)" by (simp add: emit_stream_def)
  from eu show ?thesis
  proof (cases rule: emit_users_cases)
    case (cursor_fail e)
    then show ?thesis by simp
  next
    case (loop_fail c' e)
    with cur True have "c' = c" by simp
    with users_loop_users [OF loop_fail(2) True cok] loop_fail(3) show ?thesis by simp
  next
    case (ok c' ms0 cs r1)
    with cur True have c': "c' = c" by simp
    have recs: "records_of ''Users'' ms = records_of ''Users'' ms0"
      using ok(3) by (simp split: option.splits)
    from users_loop_users [OF ok(2) True cok] c' have
      a: "ids_from c (records_of ''Users'' ms0)" and
      b: "records_of ''Users'' ms0 = [] \<or>
          c + int (length (records_of ''Users'' ms0)) \<le> c_count cx" and
      t: "total_records cs = c + int (length (records_of ''Users'' ms0))"
      by simp_all
    have "get_stream_cursor (run_state r') ''Users'' = Inr (total_records cs)"
      if "res = Inr r'" for r'
      using that ok(4) True cok
      by (auto simp: ctx_ok_def get_stream_cursor_dict_set split: option.splits)
    with a b t recs show ?thesis by simp
  qed
next
  case False
  show ?thesis
  proof (cases "stream_name s = ''Products''")
    case True
    with es False cur show ?thesis
      by (auto simp: emit_stream_def emit_products_def generate_state_def Let_def
            map_generate_record get_stream_cursor_dict_set)
  next
    case np: False
    with es False cur show ?thesis
      by (auto simp: emit_stream_def split: if_splits)
  qed
qed

lemma emit_stream_purchases:
  assumes es: "emit_stream cx s r = (ms, res)" and cok: "ctx_ok cx"
      and pc: "run_purchases_count r = Some pc"
  shows "ids_from pc (records_of ''Purchases'' ms) \<and>
         (\<forall>r'. res = Inr r' \<longrightarrow>
            run_purchases_count r' = Some (pc + int (length (records_of ''Purchases'' ms))) \<and>
            (initial_purchases_count (run_state r) = Inr (Some pc) \<longrightarrow>
             initial_purchases_count (run_state r')
               = Inr (Some (pc + int (length (records_of ''Purchases'' ms))))))"
proof (cases "stream_name s = ''Users''")
  case True
  with es have eu: "emit_users cx s r = (ms, res)" by (simp add: emit_stream_def)
  from eu show ?thesis
  proof (cases rule: emit_users_cases)
    case (cursor_fail e)
    then show ?thesis by simp
  next
    case (loop_fail c' e)
    with users_loop_purchases [OF loop_fail(2) True cok] pc show ?thesis by simp
  next
    case (ok c' ms0 cs r1)
    have recs: "records_of ''Purchases'' ms = records_of ''Purchases'' ms0"
      using ok(3) by (simp split: option.splits)
    from users_loop_purchases [OF ok(2) True cok] pc have
      a: "ids_from pc (records_of ''Purchases'' ms0)" and
      n: "run_purchases_count r1 = Some (pc + int (length (records_of ''Purchases'' ms0)))"
      by simp_all
    from users_loop_frame [OF ok(2) True cok, of "''Purchases''"] have
      fr: "map_of (run_state r1) ''Purchases'' = map_of (run_state r) ''Purchases''"
      by simp
    show ?thesis
    proof (cases "c_purchases_stream cx")
      case None
      from users_loop_no_purchases [OF ok(2) True cok None] have
        z: "records_of ''Purchases'' ms0 = []" .
      from ok(4) None True have
        st: "res = Inr (r1\<lparr>run_state := dict_set (run_state r1) ''Users''
                              (users_checkpoint (total_records cs) (c_seed cx))\<rparr>)"
        by simp
      have "initial_purchases_count (dict_set (run_state r1) ''Users''
              (users_checkpoint (total_records cs) (c_seed cx)))
            = initial_purchases_count (run_state r)"
        using fr by (simp add: initial_purchases_count_def map_of_dict_set)
      with a n z recs st show ?thesis by simp
    next
      case (Some ps)
      with cok have ps: "stream_name ps = ''Purchases''" by (simp add: ctx_ok_def)
      from ok(4) Some True ps have
        st: "res = Inr (r1\<lparr>run_state :=
                   dict_set (dict_set (run_state r1) ''Users''
                               (users_checkpoint (total_records cs) (c_seed cx)))
                     ''Purchases'' [(''purchases_count'', run_purchases_count r1)]\<rparr>)"
        by simp
      with a n recs show ?thesis
        by (simp add: initial_purchases_count_dict_set dict_get_def)
    qed
  qed
next
  case False
  show ?thesis
  proof (cases "stream_name s = ''Products''")
    case True
    with es False pc show ?thesis
      by (auto simp: emit_stream_def emit_products_def generate_state_def Let_def
            map_generate_record initial_purchases_count_dict_set)
  next
    case np: False
    with es False pc show ?thesis
      by (auto simp: emit_stream_def split: if_splits)
  qed
qed

lemma emit_stream_records:
  assumes es: "emit_stream cx s r = (ms, res)" and cok: "ctx_ok cx"
  shows "(stream_name s \<noteq> ''Products'' \<longrightarrow> records_of ''Products'' ms = []) \<and>
         (stream_name s \<noteq> ''Users'' \<longrightarrow>
            records_of ''Users'' ms = [] \<and> records_of ''Purchases'' ms = [])"
proof (cases "stream_name s = ''Users''")
  case True
  with es have eu: "emit_users cx s r = (ms, res)" by (simp add: emit_stream_def)
  from eu show ?thesis
  proof (cases rule: emit_users_cases)
    case (cursor_fail e)
    then show ?thesis by simp
  next
    case (loop_fail c' e)
    with users_loop_frame [OF loop_fail(2) True cok, of "''Products''"] True
    show ?thesis by simp
  next
    case (ok c' ms0 cs r1)
    have "records_of ''Products'' ms = records_of ''Products'' ms0"
      using ok(3) by (simp split: option.splits)
    with users_loop_frame [OF ok(2) True cok, of "''Products''"] True
    show ?thesis by simp
  qed
next
  case False
  with es show ?thesis
    by (auto simp: emit_stream_def emit_products_def generate_state_def Let_def
          map_generate_record split: if_splits)
qed

subsection \<open>The catalog\<close>

lemma emit_streams_users:
  assumes "emit_streams cx cat r = (ms, res)" and cok: "ctx_ok cx"
      and "get_stream_cursor (run_state r) ''Users'' = Inr c"
  shows "ids_from c (records_of ''Users'' ms) \<and>
         (records_of ''Users'' ms = [] \<or>
          c + int (length (records_of ''Users'' ms)) \<le> c_count cx) \<and>
         (\<forall>r'. res = Inr r' \<longrightarrow>
            get_stream_cursor (run_state r') ''Users''
              = Inr (c + int (length (records_of ''Users'' ms))))"
  using assms(1,3)
proof (induction cat arbitrary: r ms res c)
  case Nil
  then show ?case by auto
next
  case (Cons s cat)
  obtain ms1 res1 where es: "emit_stream cx s r = (ms1, res1)"
    by (cases "emit_stream cx s r")
  from emit_stream_users [OF es cok Cons.prems(2)] have
    a: "ids_from c (records_of ''Users'' ms1)" and
    b: "records_of ''Users'' ms1 = [] \<or>
        c + int (length (records_of ''Users'' ms1)) \<le> c_count cx" and
    n: "\<forall>r'. res1 = Inr r' \<longrightarrow>
          get_stream_cursor (run_state r') ''Users''
            = Inr (c + int (length (records_of ''Users'' ms1)))"
    by blast+
  show ?case
  proof (cases res1)
    case (Inl e)
    with Cons.prems(1) es have "ms = ms1" "res = Inl e" by simp_all
    with a b show ?thesis by simp
  next
    case (Inr r1)
    obtain ms2 res2 where rest: "emit_streams cx cat r1 = (ms2, res2)"
      by (cases "emit_streams cx cat r1")
    with Cons.prems(1) es Inr have eq: "ms = ms1 @ ms2" "res = res2" by simp_all
    from n Inr have
      "get_stream_cursor (run_state r1) ''Users''
         = Inr (c + int (length (records_of ''Users'' ms1)))"
      by simp
    from Cons.IH [OF rest this] have
      a2: "ids_from (c + int (length (records_of ''Users'' ms1))) (records_of ''Users'' ms2)" and
      b2: "records_of ''Users'' ms2 = [] \<or>
           c + int (length (records_of ''Users'' ms1)) + int (length (records_of ''Users'' ms2))
             \<le> c_count cx" and
      n2: "\<forall>r'. res2 = Inr r' \<longrightarrow>
             get_stream_cursor (run_state r') ''Users''
               = Inr (c + int (length (records_of ''Users'' ms1))
                        + int (length (records_of ''Users'' ms2)))"
      by blast+
    have "ids_from c (records_of ''Users'' ms)"
      using a a2 eq by (simp add: ids_from_append)
    moreover have "records_of ''Users'' ms = [] \<or>
          c + int (length (records_of ''Users'' ms)) \<le> c_count cx"
      using b b2 eq by auto
    moreover have "\<forall>r'. res = Inr r' \<longrightarrow>
            get_stream_cursor (run_state r') ''Users''
              = Inr (c + int (length (records_of ''Users'' ms)))"
      using n2 eq by (simp add: add.assoc)
    ultimately show ?thesis by blast
  qed
qed

lemma emit_streams_purchases:
  assumes "emit_streams cx cat r = (ms, res)" and cok: "ctx_ok cx"
      and "run_purchases_count r = Some pc"
      and "initial_purchases_count (run_state r) = Inr (Some pc)"
  shows "ids_from pc (records_of ''Purchases'' ms) \<and>
         (\<forall>r'. res = Inr r' \<longrightarrow>
            initial_purchases_count (run_state r')
              = Inr (Some (pc + int (length (records_of ''Purchases'' ms)))))"
proof -
  have "ids_from pc (records_of ''Purchases'' ms) \<and>
         (\<forall>r'. res = Inr r' \<longrightarrow>
            run_purchases_count r' = Some (pc + int (length (records_of ''Purchases'' ms))) \<and>
            initial_purchases_count (run_state r')
              = Inr (Some (pc + int (length (records_of ''Purchases'' ms)))))"
    using assms(1,3,4)
  proof (induction cat arbitrary: r ms res pc)
    case Nil
    then show ?case by auto
  next
    case (Cons s cat)
    obtain ms1 res1 where es: "emit_stream cx s r = (ms1, res1)"
      by (cases "emit_stream cx s r")
    from emit_stream_purchases [OF es cok Cons.prems(2)] Cons.prems(3) have
      a: "ids_from pc (records_of ''Purchases'' ms1)" and
      n: "\<forall>r'. res1 = Inr r' \<longrightarrow>
            run_purchases_count r' = Some (pc + int (length (records_of ''Purchases'' ms1))) \<and>
            initial_purchases_count (run_state r')
              = Inr (Some (pc + int (length (records_of ''Purchases'' ms1))))"
      by blast+
    show ?case
    proof (cases res1)
      case (Inl e)
      with Cons.prems(1) es have "ms = ms1" "res = Inl e" by simp_all
      with a show ?thesis by simp
    next
      case (Inr r1)
      obtain ms2 res2 where rest: "emit_streams cx cat r1 = (ms2, res2)"
        by (cases "emit_streams cx cat r1")
      with Cons.prems(1) es Inr have eq: "ms = ms1 @ ms2" "res = res2" by simp_all
      from n Inr have
        n1: "run_purchases_count r1 = Some (pc + int (length (records_of ''Purchases'' ms1)))"
            "initial_purchases_count (run_state r1)
               = Inr (Some (pc + int (length (records_of ''Purchases'' ms1))))"
        by simp_all
      from Cons.IH [OF rest n1] have
        a2: "ids_from (pc + int (length (records_of ''Purchases'' ms1)))
               (records_of ''Purchases'' ms2)" and
        n2: "\<forall>r'. res2 = Inr r' \<longrightarrow>
               run_purchases_count r'
                 = Some (pc + int (length (records_of ''Purchases'' ms1))
                           + int (length (records_of ''Purchases'' ms2))) \<and>
               initial_purchases_count (run_state r')
                 = Inr (Some (pc + int (length (records_of ''Purchases'' ms1))
                                + int (length (records_of ''Purchases'' ms2))))"
        by blast+
      have "ids_from pc (records_of ''Purchases'' ms)"
        using a a2 eq by (simp add: ids_from_append)
      moreover have "\<forall>r'. res = Inr r' \<longrightarrow>
            run_purchases_count r' = Some (pc + int (length (records_of ''Purchases'' ms))) \<and>
            initial_purchases_count (run_state r')
              = Inr (Some (pc + int (length (records_of ''Purchases'' ms))))"
        using n2 eq by (simp add: add.assoc)
      ultimately show ?thesis by blast
    qed
  qed
  then show ?thesis by blast
qed

lemma emit_streams_append:
  "emit_streams cx (xs @ ys) r =
     (case emit_streams cx xs r of
        (ms, Inl e) \<Rightarrow> (ms, Inl e)
      | (ms, Inr r') \<Rightarrow> (case emit_streams cx ys r' of (ms', res) \<Rightarrow> (ms @ ms', res)))"
  by (induction xs arbitrary: r) (auto split: prod.splits sum.splits)

lemma emit_streams_no_products:
  assumes "emit_streams cx cat r = (ms, res)" and cok: "ctx_ok cx"
      and "''Products'' \<notin> set (map stream_name cat)"
  shows "records_of ''Products'' ms = []"
  using assms(1,3)
proof (induction cat arbitrary: r ms res)
  case Nil
  then show ?case by auto
next
  case (Cons s cat)
  obtain ms1 res1 where es: "emit_stream cx s r = (ms1, res1)"
    by (cases "emit_stream cx s r")
  from emit_stream_records [OF es cok] Cons.prems(2) have
    a: "records_of ''Products'' ms1 = []" by auto
  show ?case
  proof (cases res1)
    case (Inl e)
    with Cons.prems(1) es a show ?thesis by auto
  next
    case (Inr r1)
    obtain ms2 res2 where rest: "emit_streams cx cat r1 = (ms2, res2)"
      by (cases "emit_streams cx cat r1")
    from Cons.IH [OF rest] Cons.prems(2) have "records_of ''Products'' ms2 = []" by simp
    with Cons.prems(1) es Inr rest a show ?thesis by auto
  qed
qed

lemma emit_streams_no_users:
  assumes "emit_streams cx cat r = (ms, res)" and cok: "ctx_ok cx"
      and "''Users'' \<notin> set (map stream_name cat)"
  shows "records_of ''Users'' ms = [] \<and> records_of ''Purchases'' ms = []"
  using assms(1,3)
proof (induction cat arbitrary: r ms res)
  case Nil
  then show ?case by auto
next
  case (Cons s cat)
  obtain ms1 res1 where es: "emit_stream cx s r = (ms1, res1)"
    by (cases "emit_stream cx s r")
  from emit_stream_records [OF es cok] Cons.prems(2) have
    a: "records_of ''Users'' ms1 = [] \<and> records_of ''Purchases'' ms1 = []" by auto
  show ?case
  proof (cases res1)
    case (Inl e)
    with Cons.prems(1) es a show ?thesis by auto
  next
    case (Inr r1)
    obtain ms2 res2 where rest: "emit_streams cx cat r1 = (ms2, res2)"
      by (cases "emit_streams cx cat r1")
    from Cons.IH [OF rest] Cons.prems(2) have
      "records_of ''Users'' ms2 = [] \<and> records_of ''Purchases'' ms2 = []" by simp
    with Cons.prems(1) es Inr rest a show ?thesis by auto
  qed
qed

lemma find_purchases_stream_None:
  "find_purchases_stream cat = None \<longleftrightarrow> ''Purchases'' \<notin> set (map stream_name cat)"
proof -
  have "filter (\<lambda>s. stream_name s = ''Purchases'') cat = []
          \<longleftrightarrow> ''Purchases'' \<notin> set (map stream_name cat)"
    by (induction cat) auto
  then show ?thesis
    by (cases "filter (\<lambda>s. stream_name s = ''Purchases'') cat")
       (simp_all add: find_purchases_stream_def)
qed

lemma find_purchases_stream_Some:
  assumes "find_purchases_stream cat = Some ps"
  shows "stream_name ps = ''Purchases''"
proof -
  from assms obtain x xs where
    f: "filter (\<lambda>s. stream_name s = ''Purchases'') cat = x # xs" and ps: "ps = last (x # xs)"
    by (auto simp: find_purchases_stream_def split: list.splits)
  have "last (x # xs) \<in> set (x # xs)" by (rule last_in_set) simp
  with f ps have "ps \<in> set (filter (\<lambda>s. stream_name s = ''Purchases'') cat)" by simp
  then show ?thesis by simp
qed

lemma ctx_ok_read_ctx: "ctx_ok (read_ctx p products cfg catalog)"
  by (auto simp: ctx_ok_def read_ctx_def find_purchases_stream_None
        dest: find_purchases_stream_Some split: option.splits)

lemma read_cases [consumes 1, case_names state_fail config_fail run]:
  assumes rd: "read p products fk rng cfg catalog st = (msgs, res)"
  obtains
    (state_fail) e where "initial_purchases_count st = Inl e" "msgs = []" "res = Inl e"
  | (config_fail) "msgs = []" "res = Inl PurchasesWithoutUsers"
  | (run) pc res0 where
      "initial_purchases_count st = Inr pc"
      "emit_streams (read_ctx p products cfg catalog) catalog
         \<lparr>run_state = st, run_purchases_count = pc, run_fake = fk, run_rng = rng\<rparr>
         = (msgs, res0)"
      "res = (case res0 of Inl e \<Rightarrow> Inl e | Inr r \<Rightarrow> Inr (run_state r))"
      "''Purchases'' \<in> set (map stream_name catalog)
         \<Longrightarrow> ''Users'' \<in> set (map stream_name catalog)"
proof (cases "initial_purchases_count st")
  case (Inl e)
  with rd show ?thesis by (intro state_fail [of e]) (simp_all add: read_def)
next
  case (Inr pc)
  show ?thesis
  proof (cases "''Purchases'' \<in> set (map stream_name catalog)
                 \<and> ''Users'' \<notin> set (map stream_name catalog)")
    case True
    with rd Inr show ?thesis by (intro config_fail) (simp_all add: read_def)
  next
    case False
    obtain ms0 res0 where
      es: "emit_streams (read_ctx p products cfg catalog) catalog
             \<lparr>run_state = st, run_purchases_count = pc, run_fake = fk, run_rng = rng\<rparr>
             = (ms0, res0)"
      by (cases "emit_streams (read_ctx p products cfg catalog) catalog
             \<lparr>run_state = st, run_purchases_count = pc, run_fake = fk, run_rng = rng\<rparr>")
    with rd Inr False have "msgs = ms0"
      "res = (case res0 of Inl e \<Rightarrow> Inl e | Inr r \<Rightarrow> Inr (run_state r))"
      by (auto simp: read_def read_ctx_def Let_def split: sum.splits)
    with Inr es False show ?thesis by (intro run [of pc res0]) auto
  qed
qed

subsection \<open>Checkpoints of the Users stream\<close>

lemma events_append [simp]: "events (xs @ ys) = events xs @ events ys"
  by (induction xs rule: events.induct) auto

lemma events_purchases [simp]: "events (map (Record ''Purchases'') ds) = []"
  by (induction ds) auto

lemma page_step:
  fixes s k :: int
  assumes "0 < s" "0 \<le> k"
  shows "(k mod s + 1 = s) = ((k + 1) mod s = 0)"
    and "(if k mod s + 1 = s then 0 else k mod s + 1) = (k + 1) mod s"
proof -
  have b: "0 \<le> k mod s" "k mod s < s" using assms by simp_all
  have e: "(k + 1) mod s = (k mod s + 1) mod s" by (simp add: mod_add_left_eq)
  show "(k mod s + 1 = s) = ((k + 1) mod s = 0)"
  proof (cases "k mod s + 1 = s")
    case True
    with e show ?thesis by simp
  next
    case False
    with b have "k mod s + 1 < s" by simp
    with b have "(k mod s + 1) mod s = k mod s + 1" by simp
    with e b False show ?thesis by simp
  qed
  then show "(if k mod s + 1 = s then 0 else k mod s + 1) = (k + 1) mod s"
    using e b by auto
qed

lemma sliced_users_append:
  "sliced_users c seed slice pcp k (m + n)
     = sliced_users c seed slice pcp k m @ sliced_users c seed slice pcp (k + m) n"
  by (induction m arbitrary: k) auto

lemma users_loop_events:
  assumes run: "users_loop cx stream i cs r = (ms, res)"
      and nm: "stream_name stream = ''Users''" and cok: "ctx_ok cx"
      and slice: "0 < c_records_per_slice cx"
  shows "\<forall>k cs' r'. i = c + int k \<and> total_records cs = c + int k \<and>
            records_in_page cs = int k mod c_records_per_slice cx \<and>
            map_of (run_state r) ''Purchases'' = pcp \<and> res = Inr (cs', r') \<longrightarrow>
            events ms = sliced_users c (c_seed cx) (c_records_per_slice cx) pcp k
                          (length (records_of ''Users'' ms))"
  using run
proof (induction rule: users_loop_msgs_induct)
  case (finished i cs r)
  then show ?case by simp
next
  case (failed i cs r ms e)
  then show ?case by simp
next
  case (stopped i cs r ms cs' r')
  from stopped(2) nm cok show ?case
  proof (cases rule: user_iteration_cases)
    case (ok user ds cs'' r'')
    show ?thesis
    proof (intro allI impI, elim conjE)
      fix k cs' r'
      assume inv: "i = c + int k" "total_records cs = c + int k"
        "records_in_page cs = int k mod c_records_per_slice cx"
        "map_of (run_state r) ''Purchases'' = pcp"
      have u: "records_of ''Users'' ms = [user]" using ok(1) by simp
      have cond: "(records_in_page cs + 1 = c_records_per_slice cx)
                    = (int (Suc k) mod c_records_per_slice cx = 0)"
        using page_step(1) [OF slice, of "int k"] inv(3) by (simp add: add.commute)
      from ok(1) ok(3) inv cond u
      show "events ms = sliced_users c (c_seed cx) (c_records_per_slice cx) pcp k
                          (length (records_of ''Users'' ms))"
        by (simp add: map_of_dict_set ac_simps)
    qed
  qed simp_all
next
  case (continued i cs r ms1 cs1 r1 ms2 res)
  from continued(2) nm cok show ?case
  proof (cases rule: user_iteration_cases)
    case (ok user ds cs'' r'')
    show ?thesis
    proof (intro allI impI, elim conjE)
      fix k cs' r'
      assume inv: "i = c + int k" "total_records cs = c + int k"
        "records_in_page cs = int k mod c_records_per_slice cx"
        "map_of (run_state r) ''Purchases'' = pcp" and res: "res = Inr (cs', r')"
      have u: "records_of ''Users'' ms1 = [user]" using ok(1) by simp
      have cond: "(records_in_page cs + 1 = c_records_per_slice cx)
                    = (int (Suc k) mod c_records_per_slice cx = 0)"
        using page_step(1) [OF slice, of "int k"] inv(3) by (simp add: add.commute)
      have e1: "events ms1 = sliced_users c (c_seed cx) (c_records_per_slice cx) pcp k 1"
        using ok(1) ok(3) inv cond by (simp add: map_of_dict_set ac_simps)
      have eqs: "cs1 = cs''" "r1 = r''" using ok(2) by simp_all
      have i1: "i + 1 = c + int (Suc k)" using inv(1) by simp
      have t1: "total_records cs1 = c + int (Suc k)" using eqs ok(5) inv(2) by simp
      have "records_in_page cs1 =
              (if int k mod c_records_per_slice cx + 1 = c_records_per_slice cx then 0
               else int k mod c_records_per_slice cx + 1)"
        using eqs ok(7) inv(3) by simp
      also have "\<dots> = (int k + 1) mod c_records_per_slice cx"
        by (rule page_step(2) [OF slice]) simp
      finally have p1: "records_in_page cs1 = int (Suc k) mod c_records_per_slice cx"
        by (simp add: add.commute)
      have s1: "map_of (run_state r1) ''Purchases'' = pcp"
        using eqs ok(8) inv(4) by (simp add: map_of_dict_set)
      note inv1 = i1 t1 p1 s1
      from continued(5) [rule_format, of "Suc k" cs' r'] inv1 res have
        e2: "events ms2 = sliced_users c (c_seed cx) (c_records_per_slice cx) pcp (Suc k)
                            (length (records_of ''Users'' ms2))"
        by blast
      from e1 e2 u
      show "events (ms1 @ ms2) = sliced_users c (c_seed cx) (c_records_per_slice cx) pcp k
                          (length (records_of ''Users'' (ms1 @ ms2)))"
        using sliced_users_append [of c "c_seed cx" "c_records_per_slice cx" pcp k 1
                "length (records_of ''Users'' ms2)"]
        by simp
    qed
  qed simp_all
qed

lemma users_loop_count:
  assumes run: "users_loop cx stream i cs r = (ms, res)"
      and nm: "stream_name stream = ''Users''" and cok: "ctx_ok cx"
  shows "\<forall>k cs' r'. records_in_sync cs = int k \<and>
            (c_records_per_sync cx \<le> 0 \<or> int k < c_records_per_sync cx) \<and>
            res = Inr (cs', r') \<longrightarrow>
            int (length (records_of ''Users'' ms)) =
              (if c_count cx \<le> i then 0
               else if 0 < c_records_per_sync cx \<and>
                       c_records_per_sync cx - int k < c_count cx - i
                    then c_records_per_sync cx - int k
                    else c_count cx - i)"
  using run
proof (induction rule: users_loop_msgs_induct)
  case (finished i cs r)
  then show ?case by simp
next
  case (failed i cs r ms e)
  then show ?case by simp
next
  case (stopped i cs r ms cs' r')
  from stopped(2) nm cok show ?case
  proof (cases rule: user_iteration_cases)
    case (ok user ds cs'' r'')
    have u: "records_of ''Users'' ms = [user]" using ok(1) by simp
    have eqs: "cs' = cs''" using ok(2) by simp
    show ?thesis
    proof (intro allI impI, elim conjE)
      fix k csx rx
      assume inv: "records_in_sync cs = int k"
      from eqs ok(6) inv stopped(3) have "c_records_per_sync cx = int k + 1" by simp
      with stopped(1) u
      show "int (length (records_of ''Users'' ms)) =
              (if c_count cx \<le> i then 0
               else if 0 < c_records_per_sync cx \<and>
                       c_records_per_sync cx - int k < c_count cx - i
                    then c_records_per_sync cx - int k
                    else c_count cx - i)"
        by auto
    qed
  qed simp_all
next
  case (continued i cs r ms1 cs1 r1 ms2 res)
  from continued(2) nm cok show ?case
  proof (cases rule: user_iteration_cases)
    case (ok user ds cs'' r'')
    have u: "records_of ''Users'' ms1 = [user]" using ok(1) by simp
    have eqs: "cs1 = cs''" using ok(2) by simp
    show ?thesis
    proof (intro allI impI, elim conjE)
      fix k cs' r'
      assume inv: "records_in_sync cs = int k"
        "c_records_per_sync cx \<le> 0 \<or> int k < c_records_per_sync cx"
        and res: "res = Inr (cs', r')"
      have s1: "records_in_sync cs1 = int (Suc k)" using eqs ok(6) inv(1) by simp
      with continued(3) inv(2) have
        q1: "c_records_per_sync cx \<le> 0 \<or> int (Suc k) < c_records_per_sync cx"
        by auto
      from continued(5) [rule_format, of "Suc k" cs' r'] s1 q1 res have
        n2: "int (length (records_of ''Users'' ms2)) =
              (if c_count cx \<le> i + 1 then 0
               else if 0 < c_records_per_sync cx \<and>
                       c_records_per_sync cx - int (Suc k) < c_count cx - (i + 1)
                    then c_records_per_sync cx - int (Suc k)
                    else c_count cx - (i + 1))"
        by blast
      from n2 u continued(1) inv(2)
      show "int (length (records_of ''Users'' (ms1 @ ms2))) =
              (if c_count cx \<le> i then 0
               else if 0 < c_records_per_sync cx \<and>
                       c_records_per_sync cx - int k < c_count cx - i
                    then c_records_per_sync cx - int k
                    else c_count cx - i)"
        by (auto split: if_splits)
    qed
  qed simp_all
qed

lemma emit_streams_purchases_only:
  "\<forall>s \<in> set ss. stream_name s = ''Purchases'' \<Longrightarrow> emit_streams cx ss r = ([], Inr r)"
proof (induction ss)
  case Nil
  then show ?case by simp
next
  case (Cons s ss)
  then have "stream_name s = ''Purchases''" by simp
  then have "emit_stream cx s r = ([], Inr r)" by (simp add: emit_stream_def)
  with Cons show ?case by simp
qed

lemma find_purchases_stream_around:
  assumes u: "stream_name u = ''Users''"
      and all: "\<forall>s \<in> set (before @ after). stream_name s = ''Purchases''"
  shows "find_purchases_stream (before @ [u] @ after) = None \<longleftrightarrow> before @ after = []"
proof (cases "before @ after = []")
  case True
  with u show ?thesis by (simp add: find_purchases_stream_def)
next
  case False
  then obtain s where s: "s \<in> set (before @ after)" by (cases "before @ after") auto
  with all have nm: "stream_name s = ''Purchases''" by blast
  from s have "s \<in> set (before @ [u] @ after)" by auto
  then have "stream_name s \<in> set (map stream_name (before @ [u] @ after))"
    by (simp only: set_map) (rule imageI)
  then have "''Purchases'' \<in> set (map stream_name (before @ [u] @ after))"
    unfolding nm .
  with False show ?thesis by (simp add: find_purchases_stream_None)
qed

lemma users_due_int:
  "int (users_due c n ps) =
     (if n \<le> c then 0 else if 0 < ps \<and> ps - int 0 < n - c then ps - int 0 else n - c)"
  by (auto simp: users_due_def)

lemma read_users_events:
  assumes rd: "read p products fk rng cfg (before @ [u] @ after) st = (msgs, Inr st')"
      and u: "stream_name u = ''Users''"
      and around: "\<forall>s \<in> set (before @ after). stream_name s = ''Purchases''"
      and slice: "0 < config_or (cfg_records_per_slice cfg) 100"
      and cur: "get_stream_cursor st ''Users'' = Inr c"
      and pc: "initial_purchases_count st = Inr (Some pc)"
  shows "events msgs =
           expected_events c (cfg_seed cfg) (config_or (cfg_records_per_slice cfg) 100)
             (map_of st ''Purchases'')
             (users_due c (config_or (cfg_count cfg) 0) (config_or (cfg_records_per_sync cfg) 500))
             (if before @ after = [] then None
              else Some (pc + int (length (records_of ''Purchases'' msgs))))"
  using rd
proof (cases rule: read_cases)
  case (run pc' res0)
  let ?cx = "read_ctx p products cfg (before @ [u] @ after)"
  let ?r0 = "\<lparr>run_state = st, run_purchases_count = pc', run_fake = fk, run_rng = rng\<rparr>"
  note cok = ctx_ok_read_ctx [of p products cfg "before @ [u] @ after"]
  from pc run(1) have pc': "pc' = Some pc" by simp
  from around have b: "\<forall>s \<in> set before. stream_name s = ''Purchases''"
    and a: "\<forall>s \<in> set after. stream_name s = ''Purchases''" by auto
  obtain ms1 res1 where eu: "emit_users ?cx u ?r0 = (ms1, res1)"
    by (cases "emit_users ?cx u ?r0")
  have split: "emit_streams ?cx (before @ [u] @ after) ?r0 = (ms1, res1)"
    using eu u emit_streams_purchases_only [OF b] emit_streams_purchases_only [OF a]
    by (cases res1) (simp_all add: emit_streams_append emit_stream_def)
  with run(2) have eqs: "msgs = ms1" "res0 = res1" by simp_all
  from eu show ?thesis
  proof (cases rule: emit_users_cases)
    case (cursor_fail e)
    with run(3) eqs show ?thesis by simp
  next
    case (loop_fail c' e)
    with run(3) eqs show ?thesis by simp
  next
    case (ok c' ms0 cs r1)
    from ok(1) cur u have c': "c' = c" by simp
    let ?cs0 = "\<lparr>total_records = c, records_in_sync = 0, records_in_page = 0\<rparr>"
    note loop = ok(2) [unfolded c']
    let ?n = "length (records_of ''Users'' ms0)"
    have ev0: "events ms0 = sliced_users c (c_seed ?cx) (c_records_per_slice ?cx)
                 (map_of st ''Purchases'') 0 ?n"
      using users_loop_events [OF loop u cok, of c "map_of st ''Purchases''"] slice
      by (simp add: read_ctx_def)
    have pre: "records_in_sync ?cs0 = int 0 \<and>
            (c_records_per_sync ?cx \<le> 0 \<or> int 0 < c_records_per_sync ?cx) \<and>
            (Inr (cs, r1) :: error + counters \<times> run) = Inr (cs, r1)"
      by auto
    have "int ?n = (if c_count ?cx \<le> c then 0
               else if 0 < c_records_per_sync ?cx \<and>
                       c_records_per_sync ?cx - int 0 < c_count ?cx - c
                    then c_records_per_sync ?cx - int 0
                    else c_count ?cx - c)"
      by (rule users_loop_count [OF loop u cok, rule_format, OF pre])
    also have "\<dots> = int (users_due c (c_count ?cx) (c_records_per_sync ?cx))"
      by (rule users_due_int [symmetric])
    finally have n: "?n = users_due c (config_or (cfg_count cfg) 0)
                          (config_or (cfg_records_per_sync cfg) 500)"
      by (simp add: read_ctx_def)
    from users_loop_users [OF loop u cok] have
      t: "total_records cs = c + int ?n" by simp
    from users_loop_frame [OF loop u cok, of "''Purchases''"] have
      fr: "map_of (run_state r1) ''Purchases'' = map_of st ''Purchases''" by simp
    from users_loop_purchases [OF loop u cok] pc' have
      np: "run_purchases_count r1 = Some (pc + int (length (records_of ''Purchases'' ms0)))"
      by simp
    have recs: "records_of ''Purchases'' msgs = records_of ''Purchases'' ms0"
      using ok(3) eqs(1) by (simp split: option.splits)
    have seed: "c_seed ?cx = cfg_seed cfg"
      "c_records_per_slice ?cx = config_or (cfg_records_per_slice cfg) 100"
      "c_purchases_stream ?cx = find_purchases_stream (before @ [u] @ after)"
      by (simp_all add: read_ctx_def)
    show ?thesis
    proof (cases "before @ after = []")
      case True
      with find_purchases_stream_around [OF u around] seed(3) have
        "c_purchases_stream ?cx = None" by simp
      with ok(3) eqs(1) u ev0 t fr n True seed(1,2) show ?thesis
        by (simp add: expected_events_def map_of_dict_set)
    next
      case False
      with find_purchases_stream_around [OF u around] seed(3) obtain ps where
        ps: "c_purchases_stream ?cx = Some ps" by auto
      with cok have psn: "stream_name ps = ''Purchases''" by (simp add: ctx_ok_def)
      from ok(3) eqs(1) u ev0 t fr n False seed(1,2) ps psn np recs show ?thesis
        by (simp add: expected_events_def map_of_dict_set)
    qed
  qed
qed simp_all

section \<open>The sync driver: resumption and order\<close>

lemma read_users:
  assumes rd: "read p products fk rng cfg catalog st = (msgs, res)"
      and cur: "get_stream_cursor st ''Users'' = Inr c"
  shows "ids_from c (records_of ''Users'' msgs) \<and>
         (records_of ''Users'' msgs = [] \<or>
          c + int (length (records_of ''Users'' msgs)) \<le> config_or (cfg_count cfg) 0)"
  using rd
proof (cases rule: read_cases)
  case (run pc res0)
  from emit_streams_users [OF run(2) ctx_ok_read_ctx] cur show ?thesis
    by (simp add: read_ctx_def)
qed simp_all

text \<open>
  C1. When the Users checkpoint of the prior state holds cursor \<open>c\<close> (0 when there is
  no Users checkpoint, or when its cursor is \<^verbatim>\<open>None\<close>), the \<open>i\<close>-th user record that
  \<^verbatim>\<open>read\<close> yields, counted from 0, has id \<open>c + i + 1\<close>: generation starts at index
  \<open>c\<close>, no index below \<open>c\<close> is emitted again, and no index reaches \<open>count\<close>.
\<close>

theorem resumed_users_follow_cursor:
  assumes "read p products fk rng cfg catalog st = (msgs, res)"
      and "get_stream_cursor st ''Users'' = Inr c"
  shows "(\<forall>i < length (records_of ''Users'' msgs).
            map_of (records_of ''Users'' msgs ! i) ''id'' = Some (PyInt (c + int i + 1))) \<and>
         (records_of ''Users'' msgs = [] \<or>
          c + int (length (records_of ''Users'' msgs)) \<le> config_or (cfg_count cfg) 0)"
  using read_users [OF assms] by (auto dest: ids_from_nth)

theorem resumed_users_follow_cursor_witness:
  "get_stream_cursor demo_resumed_state ''Users'' = Inr 2 \<and>
   map (\<lambda>d. map_of d ''id'')
     (records_of ''Users''
        (fst (read demo_process demo_products demo_faker demo_rng
                \<lparr>cfg_count = Some 5, cfg_seed = None, cfg_records_per_sync = Some 2,
                 cfg_records_per_slice = None\<rparr>
                [demo_stream ''Users'', demo_stream ''Products''] demo_resumed_state)))
     = [Some (PyInt 3), Some (PyInt 4)]"
proof -
  let ?run = "read demo_process demo_products demo_faker demo_rng
                \<lparr>cfg_count = Some 5, cfg_seed = None, cfg_records_per_sync = Some 2,
                 cfg_records_per_slice = None\<rparr>
                [demo_stream ''Users'', demo_stream ''Products''] demo_resumed_state"
  have cur: "get_stream_cursor demo_resumed_state ''Users'' = Inr 2"
    by (simp add: demo_resumed_state_def get_stream_cursor_def dict_get_def)
  have run: "?run = (fst ?run, snd ?run)" by simp
  have recs: "length (records_of ''Users'' (fst ?run)) = 2"
    by (simp add: eval_defs)
  from resumed_users_follow_cursor [OF run cur] recs cur show ?thesis
    by (simp add: list_eq_iff_nth_eq less_Suc_eq numeral_2_eq_2)
qed

lemma read_purchases:
  assumes rd: "read p products fk rng cfg catalog st = (msgs, res)"
      and pc: "initial_purchases_count st = Inr (Some pc)"
  shows "ids_from pc (records_of ''Purchases'' msgs) \<and>
         (\<forall>st'. res = Inr st' \<longrightarrow>
            initial_purchases_count st'
              = Inr (Some (pc + int (length (records_of ''Purchases'' msgs)))))"
  using rd
proof (cases rule: read_cases)
  case (run pc' res0)
  with pc have pc': "pc' = Some pc" by simp
  from emit_streams_purchases [OF run(2) [unfolded pc'] ctx_ok_read_ctx] pc
  have "ids_from pc (records_of ''Purchases'' msgs) \<and>
         (\<forall>r'. res0 = Inr r' \<longrightarrow>
            initial_purchases_count (run_state r')
              = Inr (Some (pc + int (length (records_of ''Purchases'' msgs)))))"
    by simp
  with run(3) show ?thesis by (auto split: sum.splits)
qed simp_all

text \<open>
  C2. Within one \<^verbatim>\<open>read\<close> the ids of the Purchases records are \<open>pc + 1\<close>,
  \<open>pc + 2\<close>, and so on from the prior \<open>purchases_count\<close>, and a \<^verbatim>\<open>read\<close> that
  runs to its end leaves the advanced count in the Purchases checkpoint
  (\<open>read_purchases\<close>). The state messages of lines 149 and 155 do not: they carry the
  advanced Users cursor with the prior \<open>purchases_count\<close>, which only line 157 writes.
  Here the fourth message of a \<^verbatim>\<open>read\<close> from cursor 2 and count 7 is the checkpoint of
  line 149 with cursor 3 and count 7, after purchases 8 and 9; a \<^verbatim>\<open>read\<close> resumed from
  it yields user 4 and the purchase ids 8 and 9 once more.
\<close>

theorem purchase_ids_reissued_after_slice_checkpoint:
  "fst (read demo_process demo_products demo_faker demo_rng demo_sliced_config
          [demo_stream ''Users'', demo_stream ''Purchases''] demo_resumed_state) ! 3
     = State demo_intermediate_state \<and>
   map (\<lambda>d. map_of d ''id'')
     (records_of ''Purchases''
        (fst (read demo_process demo_products demo_faker demo_rng demo_sliced_config
                [demo_stream ''Users'', demo_stream ''Purchases''] demo_resumed_state)))
     = [Some (PyInt 8), Some (PyInt 9)] \<and>
   map (\<lambda>d. map_of d ''id'')
     (records_of ''Users''
        (fst (read demo_process demo_products demo_faker demo_rng demo_sliced_config
                [demo_stream ''Users'', demo_stream ''Purchases''] demo_intermediate_state)))
     = [Some (PyInt 4)] \<and>
   map (\<lambda>d. map_of d ''id'')
     (records_of ''Purchases''
        (fst (read demo_process demo_products demo_faker demo_rng demo_sliced_config
                [demo_stream ''Users'', demo_stream ''Purchases''] demo_intermediate_state)))
     = [Some (PyInt 8), Some (PyInt 9)] \<and>
   \<not> ids_from 7
     (records_of ''Purchases''
        (fst (read demo_process demo_products demo_faker demo_rng demo_sliced_config
                [demo_stream ''Users'', demo_stream ''Purchases''] demo_resumed_state) @
         fst (read demo_process demo_products demo_faker demo_rng demo_sliced_config
                [demo_stream ''Users'', demo_stream ''Purchases''] demo_intermediate_state)))"
  by (simp add: eval_defs)

lemma last_state_append [simp]:
  "last_state st (xs @ ys) = last_state (last_state st xs) ys"
  by (induction st xs rule: last_state.induct) auto

lemma last_state_records [simp]: "last_state st (map (Record n) ds) = st"
  by (induction ds) auto

lemma last_state_records_fun [simp]: "last_state st (map (\<lambda>d. Record n (f d)) ds) = st"
  by (induction ds) auto

lemma dict_set_idem [simp]: "dict_set (dict_set d k v) k v = dict_set d k v"
  by (induction d) auto

lemma users_loop_last_state:
  assumes run: "users_loop cx stream i cs r = (ms, res)"
      and nm: "stream_name stream = ''Users''" and cok: "ctx_ok cx"
  shows "\<forall>cs' r'. res = Inr (cs', r') \<longrightarrow> run_state r' = last_state (run_state r) ms"
  using run
proof (induction rule: users_loop_msgs_induct)
  case (finished i cs r)
  then show ?case by simp
next
  case (failed i cs r ms e)
  then show ?case by simp
next
  case (stopped i cs r ms cs' r')
  from stopped(2) nm cok show ?case
  proof (cases rule: user_iteration_cases)
    case (ok user ds cs'' r'')
    from ok(2) have "r' = r''" by simp
    with ok(1) ok(8) show ?thesis by simp
  qed simp_all
next
  case (continued i cs r ms1 cs1 r1 ms2 res)
  from continued(2) nm cok show ?case
  proof (cases rule: user_iteration_cases)
    case (ok user ds cs'' r'')
    from ok(2) have "r1 = r''" by simp
    with ok(1) ok(8) have s1: "run_state r1 = last_state (run_state r) ms1" by simp
    show ?thesis
    proof (intro allI impI)
      fix cs' r'
      assume "res = Inr (cs', r')"
      from continued(5) [rule_format, OF this] s1
      show "run_state r' = last_state (run_state r) (ms1 @ ms2)" by simp
    qed
  qed simp_all
qed

lemma emit_stream_last_state:
  assumes es: "emit_stream cx s r = (ms, res)" and cok: "ctx_ok cx"
  shows "\<forall>r'. res = Inr r' \<longrightarrow> run_state r' = last_state (run_state r) ms"
proof (cases "stream_name s = ''Users''")
  case True
  with es have eu: "emit_users cx s r = (ms, res)" by (simp add: emit_stream_def)
  from eu show ?thesis
  proof (cases rule: emit_users_cases)
    case (ok c' ms0 cs r1)
    from users_loop_last_state [OF ok(2) True cok] have
      "run_state r1 = last_state (run_state r) ms0" by simp
    with ok(3) ok(4) show ?thesis by (simp split: option.splits)
  qed simp_all
next
  case False
  with es show ?thesis
    by (auto simp: emit_stream_def emit_products_def generate_state_def Let_def
          generate_record_def split: if_splits)
qed

lemma emit_streams_last_state:
  assumes "emit_streams cx cat r = (ms, res)" and cok: "ctx_ok cx"
  shows "\<forall>r'. res = Inr r' \<longrightarrow> run_state r' = last_state (run_state r) ms"
  using assms(1)
proof (induction cat arbitrary: r ms res)
  case Nil
  then show ?case by auto
next
  case (Cons s cat)
  obtain ms1 res1 where es: "emit_stream cx s r = (ms1, res1)"
    by (cases "emit_stream cx s r")
  show ?case
  proof (cases res1)
    case (Inl e)
    with Cons.prems es show ?thesis by auto
  next
    case (Inr r1)
    obtain ms2 res2 where rest: "emit_streams cx cat r1 = (ms2, res2)"
      by (cases "emit_streams cx cat r1")
    from emit_stream_last_state [OF es cok] Inr have
      s1: "run_state r1 = last_state (run_state r) ms1" by simp
    from Cons.prems es Inr rest have eq: "ms = ms1 @ ms2" "res = res2" by simp_all
    show ?thesis
    proof (intro allI impI)
      fix r'
      assume "res = Inr r'"
      with eq have "res2 = Inr r'" by simp
      from Cons.IH [OF rest, rule_format, OF this] s1 eq
      show "run_state r' = last_state (run_state r) ms" by simp
    qed
  qed
qed

lemma emit_streams_products_only:
  assumes "emit_streams cx cat r = (ms, res)"
      and "''Users'' \<notin> set (map stream_name cat)"
  shows "\<exists>k. ms = concat (replicate k
                 (products_block (c_products cx)
                    (dict_set (run_state r) ''Products'' (products_checkpoint (c_products cx))))) \<and>
           k \<le> products_streams cat \<and>
           (\<forall>r'. res = Inr r' \<longrightarrow> k = products_streams cat)"
  using assms
proof (induction cat arbitrary: r ms res)
  case Nil
  then show ?case by (intro exI [of _ 0]) (auto simp: products_streams_def)
next
  case (Cons s cat)
  from Cons.prems(2) have nu: "stream_name s \<noteq> ''Users''"
    and nus: "''Users'' \<notin> set (map stream_name cat)" by auto
  let ?st = "dict_set (run_state r) ''Products'' (products_checkpoint (c_products cx))"
  show ?case
  proof (cases "stream_name s = ''Products''")
    case True
    let ?r1 = "r\<lparr>run_state := ?st\<rparr>"
    have es: "emit_stream cx s r = (products_block (c_products cx) ?st, Inr ?r1)"
      using True
      by (simp add: emit_stream_def emit_products_def generate_state_def Let_def
            products_block_def generate_record_def products_checkpoint_def)
    obtain ms2 res2 where rest: "emit_streams cx cat ?r1 = (ms2, res2)"
      by (cases "emit_streams cx cat ?r1")
    from Cons.IH [OF rest nus] obtain k where
      k: "ms2 = concat (replicate k (products_block (c_products cx) ?st))"
        "k \<le> products_streams cat"
        "\<forall>r'. res2 = Inr r' \<longrightarrow> k = products_streams cat"
      by auto
    from Cons.prems(1) es rest have eq: "ms = products_block (c_products cx) ?st @ ms2"
      "res = res2" by simp_all
    from k eq True show ?thesis
      by (intro exI [of _ "Suc k"]) (simp add: products_streams_def)
  next
    case False
    show ?thesis
    proof (cases "stream_name s = ''Purchases''")
      case True
      with nu False have es: "emit_stream cx s r = ([], Inr r)"
        by (simp add: emit_stream_def)
      obtain ms2 res2 where rest: "emit_streams cx cat r = (ms2, res2)"
        by (cases "emit_streams cx cat r")
      from Cons.prems(1) es rest have eq: "ms = ms2" "res = res2" by simp_all
      from Cons.IH [OF rest nus] eq False show ?thesis
        by (simp add: products_streams_def)
    next
      case np: False
      with nu False have "emit_stream cx s r = ([], Inl (UnknownStream (stream_name s)))"
        by (simp add: emit_stream_def)
      with Cons.prems(1) have "ms = []" "res = Inl (UnknownStream (stream_name s))"
        by simp_all
      then show ?thesis by (intro exI [of _ 0]) simp
    qed
  qed
qed

text \<open>
  C9, amended. \<^verbatim>\<open>read\<close> emits the streams in the order of the configured catalog.
  When every stream named Users comes before every stream named Products, the messages
  are a part with no Products record, then one block for each Products stream: all
  product records closed by a state message that is the last state of the first part
  with only the Products checkpoint stored. So every Users and Purchases record and every
  state message that stores a Users or Purchases checkpoint is yielded before any
  Products record. When every stream named Products comes before every stream named
  Users, the blocks of the Products streams come first, built on the prior state, and no
  Products record follows them.
\<close>

theorem streams_in_catalog_order:
  assumes rd: "read p products fk rng cfg (first @ rest) st = (msgs, res)"
  shows "(''Products'' \<notin> set (map stream_name first) \<and>
          ''Users'' \<notin> set (map stream_name rest) \<longrightarrow>
            (\<exists>xs k. msgs = xs @ concat (replicate k
                        (products_block products
                           (dict_set (last_state st xs) ''Products''
                              (products_checkpoint products)))) \<and>
               records_of ''Products'' xs = [] \<and>
               k \<le> products_streams rest \<and>
               (\<forall>st'. res = Inr st' \<longrightarrow> k = products_streams rest))) \<and>
         (''Users'' \<notin> set (map stream_name first) \<and>
          ''Products'' \<notin> set (map stream_name rest) \<longrightarrow>
            (\<exists>k ys. msgs = concat (replicate k
                        (products_block products
                           (dict_set st ''Products'' (products_checkpoint products)))) @ ys \<and>
               records_of ''Products'' ys = [] \<and>
               k \<le> products_streams first \<and>
               (\<forall>st'. res = Inr st' \<longrightarrow> k = products_streams first)))"
  using rd
proof (cases rule: read_cases)
  case (state_fail e)
  then show ?thesis
    by (intro conjI impI; intro exI [of _ "[]"] exI [of _ 0]) simp_all
next
  case config_fail
  then show ?thesis
    by (intro conjI impI; intro exI [of _ "[]"] exI [of _ 0]) simp_all
next
  case (run pc res0)
  let ?cx = "read_ctx p products cfg (first @ rest)"
  let ?r0 = "\<lparr>run_state = st, run_purchases_count = pc, run_fake = fk, run_rng = rng\<rparr>"
  note cok = ctx_ok_read_ctx [of p products cfg "first @ rest"]
  have prods: "c_products ?cx = products" by (simp add: read_ctx_def)
  obtain xs res1 where a: "emit_streams ?cx first ?r0 = (xs, res1)"
    by (cases "emit_streams ?cx first ?r0")
  have res_inr: "\<exists>r. res0 = Inr r" if "res = Inr st'" for st'
    using that run(3) by (cases res0) simp_all
  show ?thesis
  proof (intro conjI impI; elim conjE)
    assume np: "''Products'' \<notin> set (map stream_name first)"
      and nu: "''Users'' \<notin> set (map stream_name rest)"
    from emit_streams_no_products [OF a cok np] have
      xs: "records_of ''Products'' xs = []" .
    show "\<exists>xs k. msgs = xs @ concat (replicate k
                        (products_block products
                           (dict_set (last_state st xs) ''Products''
                              (products_checkpoint products)))) \<and>
               records_of ''Products'' xs = [] \<and>
               k \<le> products_streams rest \<and>
               (\<forall>st'. res = Inr st' \<longrightarrow> k = products_streams rest)"
    proof (cases res1)
      case (Inl e)
      with run(2) a have "msgs = xs" "res0 = Inl e" by (simp_all add: emit_streams_append)
      with xs run(3) show ?thesis
        by (intro exI [of _ xs] exI [of _ 0]) simp
    next
      case (Inr r1)
      obtain ys res2 where b: "emit_streams ?cx rest r1 = (ys, res2)"
        by (cases "emit_streams ?cx rest r1")
      from emit_streams_last_state [OF a cok] Inr have
        s1: "run_state r1 = last_state st xs" by simp
      from emit_streams_products_only [OF b nu] prods s1 obtain k where
        k: "ys = concat (replicate k
                  (products_block products
                     (dict_set (last_state st xs) ''Products'' (products_checkpoint products))))"
          "k \<le> products_streams rest"
          "\<forall>r'. res2 = Inr r' \<longrightarrow> k = products_streams rest"
        by auto
      from run(2) a Inr b have eq: "msgs = xs @ ys" "res0 = res2"
        by (simp_all add: emit_streams_append)
      have "k = products_streams rest" if "res = Inr st'" for st'
        using res_inr [OF that] k(3) eq(2) by auto
      with xs k(1,2) eq(1) show ?thesis
        by (intro exI [of _ xs] exI [of _ k]) simp
    qed
  next
    assume nu: "''Users'' \<notin> set (map stream_name first)"
      and np: "''Products'' \<notin> set (map stream_name rest)"
    from emit_streams_products_only [OF a nu] prods obtain k where
      k: "xs = concat (replicate k
                (products_block products
                   (dict_set st ''Products'' (products_checkpoint products))))"
        "k \<le> products_streams first"
        "\<forall>r'. res1 = Inr r' \<longrightarrow> k = products_streams first"
      by auto
    show "\<exists>k ys. msgs = concat (replicate k
                        (products_block products
                           (dict_set st ''Products'' (products_checkpoint products)))) @ ys \<and>
               records_of ''Products'' ys = [] \<and>
               k \<le> products_streams first \<and>
               (\<forall>st'. res = Inr st' \<longrightarrow> k = products_streams first)"
    proof (cases res1)
      case (Inl e)
      with run(2) a have "msgs = xs" "res0 = Inl e" by (simp_all add: emit_streams_append)
      with k(1,2) run(3) show ?thesis
        by (intro exI [of _ k] exI [of _ "[]"]) simp
    next
      case (Inr r1)
      obtain ys res2 where b: "emit_streams ?cx rest r1 = (ys, res2)"
        by (cases "emit_streams ?cx rest r1")
      from emit_streams_no_products [OF b cok np] have
        ys: "records_of ''Products'' ys = []" .
      from run(2) a Inr b have eq: "msgs = xs @ ys" by (simp add: emit_streams_append)
      from k(3) Inr have "k = products_streams first" by simp
      with k(1,2) ys eq show ?thesis
        by (intro exI [of _ k] exI [of _ ys]) simp
    qed
  qed
qed

theorem streams_in_catalog_order_witness:
  "''Products'' \<notin> set (map stream_name [demo_stream ''Users'']) \<and>
   ''Users'' \<notin> set (map stream_name [demo_stream ''Products'']) \<and>
   (\<exists>xs k. fst (read demo_process demo_products demo_faker demo_rng
                  \<lparr>cfg_count = Some 5, cfg_seed = None, cfg_records_per_sync = Some 2,
                   cfg_records_per_slice = None\<rparr>
                  ([demo_stream ''Users''] @ [demo_stream ''Products'']) demo_resumed_state)
              = xs @ concat (replicate k
                       (products_block demo_products
                          (dict_set (last_state demo_resumed_state xs) ''Products''
                             (products_checkpoint demo_products)))) \<and>
            records_of ''Products'' xs = [] \<and> k = 1) \<and>
   length (records_of ''Users''
     (fst (read demo_process demo_products demo_faker demo_rng
                  \<lparr>cfg_count = Some 5, cfg_seed = None, cfg_records_per_sync = Some 2,
                   cfg_records_per_slice = None\<rparr>
                  ([demo_stream ''Users''] @ [demo_stream ''Products'']) demo_resumed_state))) = 2 \<and>
   length (records_of ''Products''
     (fst (read demo_process demo_products demo_faker demo_rng
                  \<lparr>cfg_count = Some 5, cfg_seed = None, cfg_records_per_sync = Some 2,
                   cfg_records_per_slice = None\<rparr>
                  ([demo_stream ''Users''] @ [demo_stream ''Products'']) demo_resumed_state))) = 3"
proof -
  let ?run = "read demo_process demo_products demo_faker demo_rng
                  \<lparr>cfg_count = Some 5, cfg_seed = None, cfg_records_per_sync = Some 2,
                   cfg_records_per_slice = None\<rparr>
                  ([demo_stream ''Users''] @ [demo_stream ''Products'']) demo_resumed_state"
  let ?fin = "[(''Users'', [(''cursor'', Some 4), (''seed'', None)]),
               (''Purchases'', [(''purchases_count'', Some 7)]),
               (''Products'', [(''product_count'', Some 3)])]"
  have a: "''Products'' \<notin> set (map stream_name [demo_stream ''Users''])"
    and b: "''Users'' \<notin> set (map stream_name [demo_stream ''Products''])"
    by (simp_all add: demo_stream_def)
  have fin: "snd ?run = Inr ?fin" by (simp add: eval_defs)
  have run: "?run = (fst ?run, Inr ?fin)" using fin by (simp add: prod_eq_iff)
  have lens: "length (records_of ''Users'' (fst ?run)) = 2"
    "length (records_of ''Products'' (fst ?run)) = 3"
    by (simp_all add: eval_defs)
  have ps: "products_streams [demo_stream ''Products''] = 1"
    by (simp add: products_streams_def demo_stream_def)
  from streams_in_catalog_order [OF run, THEN conjunct1, rule_format, OF conjI [OF a b]] ps
  have "\<exists>xs k. fst ?run = xs @ concat (replicate k
                       (products_block demo_products
                          (dict_set (last_state demo_resumed_state xs) ''Products''
                             (products_checkpoint demo_products)))) \<and>
            records_of ''Products'' xs = [] \<and> k = 1"
    by auto
  with a b lens show ?thesis by blast
qed

text \<open>
  C9 as stated holds for any order of the catalog; with Products configured before Users
  the Products record and its checkpoint are yielded before the user record.
\<close>

theorem products_first_counterexample:
  "read demo_process [[(''id'', PyInt 1)]] demo_faker demo_rng
     \<lparr>cfg_count = Some 1, cfg_seed = None, cfg_records_per_sync = None,
      cfg_records_per_slice = None\<rparr>
     [demo_stream ''Products'', demo_stream ''Users''] []
   = ([Record ''Products'' [(''id'', PyInt 1)],
       State [(''Products'', [(''product_count'', Some 1)])],
       Record ''Users''
         [(''name'', PyStr ''Ann''), (''id'', PyInt 1), (''created_at'', PyIso 2),
          (''updated_at'', PyIso 5)],
       State [(''Products'', [(''product_count'', Some 1)]),
              (''Users'', [(''cursor'', Some 1), (''seed'', None)])]],
      Inr [(''Products'', [(''product_count'', Some 1)]),
           (''Users'', [(''cursor'', Some 1), (''seed'', None)])])"
  by (simp add: eval_defs)

text \<open>
  C6. With Users configured once, alone or with Purchases, a positive
  \<open>records_per_slice\<close> and a \<^verbatim>\<open>read\<close> that runs to its end, the messages other than
  Purchases records are the ones the specification describes: after every
  \<open>records_per_slice\<close> user records a state message whose Users checkpoint holds the
  cursor plus the number of users emitted so far, and the seed; then the final Users
  checkpoint, then the Purchases checkpoint with the prior count plus the number of
  Purchases records. For \<open>count = 5\<close>, \<open>records_per_sync = 5\<close>,
  \<open>records_per_slice = 2\<close>, Users and Purchases and an empty prior state these are
  checkpoints after the 2nd and the 4th user, a final Users checkpoint with cursor 5 and
  a Purchases checkpoint with the number of Purchases records.
\<close>

theorem users_checkpoints_every_slice:
  "(read p products fk rng cfg (before @ [u] @ after) st = (msgs, Inr st') \<and>
    stream_name u = ''Users'' \<and>
    (\<forall>s \<in> set (before @ after). stream_name s = ''Purchases'') \<and>
    0 < config_or (cfg_records_per_slice cfg) 100 \<and>
    get_stream_cursor st ''Users'' = Inr c \<and>
    initial_purchases_count st = Inr (Some pc)
    \<longrightarrow> events msgs =
          expected_events c (cfg_seed cfg) (config_or (cfg_records_per_slice cfg) 100)
            (map_of st ''Purchases'')
            (users_due c (config_or (cfg_count cfg) 0)
               (config_or (cfg_records_per_sync cfg) 500))
            (if before @ after = [] then None
             else Some (pc + int (length (records_of ''Purchases'' msgs))))) \<and>
   (read p5 products5 fk5 rng5
      \<lparr>cfg_count = Some 5, cfg_seed = seed, cfg_records_per_sync = Some 5,
       cfg_records_per_slice = Some 2\<rparr> [u5, ps5] [] = (msgs5, Inr st5) \<and>
    stream_name u5 = ''Users'' \<and> stream_name ps5 = ''Purchases''
    \<longrightarrow> events msgs5 =
          [Emitted ''Users'' (Some (PyInt 1)),
           Emitted ''Users'' (Some (PyInt 2)),
           Checkpoint (Some [(''cursor'', Some 2), (''seed'', seed)]) None,
           Emitted ''Users'' (Some (PyInt 3)),
           Emitted ''Users'' (Some (PyInt 4)),
           Checkpoint (Some [(''cursor'', Some 4), (''seed'', seed)]) None,
           Emitted ''Users'' (Some (PyInt 5)),
           Checkpoint (Some [(''cursor'', Some 5), (''seed'', seed)]) None,
           Checkpoint (Some [(''cursor'', Some 5), (''seed'', seed)])
             (Some [(''purchases_count'',
                     Some (int (length (records_of ''Purchases'' msgs5))))])])"
proof (intro conjI impI; elim conjE)
  assume "read p products fk rng cfg (before @ [u] @ after) st = (msgs, Inr st')"
    "stream_name u = ''Users''"
    "\<forall>s \<in> set (before @ after). stream_name s = ''Purchases''"
    "0 < config_or (cfg_records_per_slice cfg) 100"
    "get_stream_cursor st ''Users'' = Inr c"
    "initial_purchases_count st = Inr (Some pc)"
  then show "events msgs =
          expected_events c (cfg_seed cfg) (config_or (cfg_records_per_slice cfg) 100)
            (map_of st ''Purchases'')
            (users_due c (config_or (cfg_count cfg) 0)
               (config_or (cfg_records_per_sync cfg) 500))
            (if before @ after = [] then None
             else Some (pc + int (length (records_of ''Purchases'' msgs))))"
    by (rule read_users_events)
next
  let ?cfg = "\<lparr>cfg_count = Some 5, cfg_seed = seed, cfg_records_per_sync = Some 5,
               cfg_records_per_slice = Some 2\<rparr>"
  assume rd: "read p5 products5 fk5 rng5 ?cfg [u5, ps5] [] = (msgs5, Inr st5)"
    and u: "stream_name u5 = ''Users''" and ps: "stream_name ps5 = ''Purchases''"
  from rd have rd': "read p5 products5 fk5 rng5 ?cfg ([] @ [u5] @ [ps5]) [] = (msgs5, Inr st5)"
    by simp
  have around: "\<forall>s \<in> set ([] @ [ps5]). stream_name s = ''Purchases''" using ps by simp
  have slice: "0 < config_or (cfg_records_per_slice ?cfg) 100" by (simp add: config_or_def)
  have cur: "get_stream_cursor [] ''Users'' = Inr 0" by (simp add: get_stream_cursor_def)
  have pc: "initial_purchases_count [] = Inr (Some 0)"
    by (simp add: initial_purchases_count_def)
  have due: "users_due 0 5 5 = 5" by (simp add: users_due_def)
  from read_users_events [OF rd' u around slice cur pc] due
  show "events msgs5 =
          [Emitted ''Users'' (Some (PyInt 1)),
           Emitted ''Users'' (Some (PyInt 2)),
           Checkpoint (Some [(''cursor'', Some 2), (''seed'', seed)]) None,
           Emitted ''Users'' (Some (PyInt 3)),
           Emitted ''Users'' (Some (PyInt 4)),
           Checkpoint (Some [(''cursor'', Some 4), (''seed'', seed)]) None,
           Emitted ''Users'' (Some (PyInt 5)),
           Checkpoint (Some [(''cursor'', Some 5), (''seed'', seed)]) None,
           Checkpoint (Some [(''cursor'', Some 5), (''seed'', seed)])
             (Some [(''purchases_count'',
                     Some (int (length (records_of ''Purchases'' msgs5))))])]"
    by (simp add: expected_events_def config_or_def users_checkpoint_def numeral_eq_Suc)
qed

theorem users_checkpoints_every_slice_witness:
  "snd (read demo_process demo_products demo_faker (sconst 49) demo_config
          [demo_stream ''Users'', demo_stream ''Purchases''] [])
     = Inr [(''Users'', [(''cursor'', Some 5), (''seed'', Some 42)]),
            (''Purchases'', [(''purchases_count'', Some 5)])] \<and>
   events (fst (read demo_process demo_products demo_faker (sconst 49) demo_config
                  [demo_stream ''Users'', demo_stream ''Purchases''] []))
     = [Emitted ''Users'' (Some (PyInt 1)),
        Emitted ''Users'' (Some (PyInt 2)),
        Checkpoint (Some [(''cursor'', Some 2), (''seed'', Some 42)]) None,
        Emitted ''Users'' (Some (PyInt 3)),
        Emitted ''Users'' (Some (PyInt 4)),
        Checkpoint (Some [(''cursor'', Some 4), (''seed'', Some 42)]) None,
        Emitted ''Users'' (Some (PyInt 5)),
        Checkpoint (Some [(''cursor'', Some 5), (''seed'', Some 42)]) None,
        Checkpoint (Some [(''cursor'', Some 5), (''seed'', Some 42)])
          (Some [(''purchases_count'', Some 5)])]"
proof -
  let ?run = "read demo_process demo_products demo_faker (sconst 49) demo_config
                [demo_stream ''Users'', demo_stream ''Purchases''] []"
  let ?fin = "[(''Users'', [(''cursor'', Some 5), (''seed'', Some 42)]),
               (''Purchases'', [(''purchases_count'', Some 5)])]"
  have fin: "snd ?run = Inr ?fin" by (simp add: eval_defs)
  have np: "length (records_of ''Purchases'' (fst ?run)) = 5" by (simp add: eval_defs)
  have run: "read demo_process demo_products demo_faker (sconst 49)
               \<lparr>cfg_count = Some 5, cfg_seed = Some 42, cfg_records_per_sync = Some 5,
                cfg_records_per_slice = Some 2\<rparr>
               [demo_stream ''Users'', demo_stream ''Purchases''] [] = (fst ?run, Inr ?fin)"
    using fin by (simp add: prod_eq_iff demo_config_def)
  have nms: "stream_name (demo_stream ''Users'') = ''Users''"
    "stream_name (demo_stream ''Purchases'') = ''Purchases''"
    by (simp_all add: demo_stream_def)
  from users_checkpoints_every_slice [THEN conjunct2, rule_format, OF conjI [OF run conjI [OF nms]]]
    np fin
  show ?thesis by simp
qed

end
